theory Spec2Isabelle
  imports Complex_Main "HOL-Library.Word" "HOL-Library.Sublist"
begin

section \<open>C strings and the C library\<close>

text \<open>
  A C string is modelled by the list of its bytes before the terminating NUL byte, so
  \<open>strlen\<close> is \<open>length\<close>. A \<open>char *\<close> that may be \<open>NULL\<close> is a \<open>string option\<close>.
  The library functions the source calls are modelled by their contract: the comparison
  functions return an integer of which only the sign is specified.
\<close>

definition NUL :: char where
  "NUL = CHR 0x00"

definition newline :: char where
  "newline = CHR 0x0A"

definition is_digit :: "char \<Rightarrow> bool" where
  "is_digit c = (48 \<le> (of_char c :: nat) \<and> (of_char c :: nat) \<le> 57)"

definition tolower :: "char \<Rightarrow> char" where
  "tolower c = (let n = (of_char c :: nat) in if 65 \<le> n \<and> n \<le> 90 then char_of (n + 32) else c)"

fun strcmp :: "string \<Rightarrow> string \<Rightarrow> int" where
  "strcmp [] [] = 0"
| "strcmp [] (y # ys) = - 1"
| "strcmp (x # xs) [] = 1"
| "strcmp (x # xs) (y # ys) =
     (if x = y then strcmp xs ys
      else if (of_char x :: nat) < of_char y then - 1 else 1)"

fun strcasecmp :: "string \<Rightarrow> string \<Rightarrow> int" where
  "strcasecmp [] [] = 0"
| "strcasecmp [] (y # ys) = - 1"
| "strcasecmp (x # xs) [] = 1"
| "strcasecmp (x # xs) (y # ys) =
     (if tolower x = tolower y then strcasecmp xs ys
      else if (of_char (tolower x) :: nat) < of_char (tolower y) then - 1 else 1)"

fun strncmp :: "string \<Rightarrow> string \<Rightarrow> nat \<Rightarrow> int" where
  "strncmp xs ys 0 = 0"
| "strncmp [] [] (Suc n) = 0"
| "strncmp [] (y # ys) (Suc n) = - 1"
| "strncmp (x # xs) [] (Suc n) = 1"
| "strncmp (x # xs) (y # ys) (Suc n) =
     (if x = y then strncmp xs ys n
      else if (of_char x :: nat) < of_char y then - 1 else 1)"

text \<open>
  \<open>snprintf(buf, sizeof(buf), ...)\<close> into a \<open>char buf[256]\<close> keeps at most 255 bytes
  of the formatted text.
\<close>

definition snprintf256 :: "string list \<Rightarrow> string" where
  "snprintf256 parts = take 255 (concat parts)"

definition squote :: char where
  "squote = CHR 0x27"

text \<open>
  What the C standard leaves undefined (a write outside an array, a division by zero,
  the use of a byte that was never written, the use of memory that was freed) is a
  fault of the model, not a value.
\<close>

datatype fault = OutOfBounds | DivisionByZero | Indeterminate | UseAfterFree

section \<open>Config entries\<close>

text \<open>
  The type \<open>confkeyval\<close> and the enumeration of its \<open>type\<close> field are declared in
  \<open>utils.h\<close>; the six cases are those of the \<open>switch\<close> in \<open>setConfVal\<close>. The constants
  \<open>INT\<close> and \<open>STR\<close> are written \<open>INT'\<close> and \<open>STR'\<close> here, since both names are
  notation of HOL.
\<close>

datatype confkeytype = INVALID | INT' | BOOL | STR' | MURI | OTHER

record confkeyval =
  key :: string
  type :: confkeytype
  val :: "string option"

text \<open>The loop \<open>while (*p >= '0' && *p <= '9') p++\<close>: what \<open>p\<close> points to afterwards.\<close>

fun skip_digits :: "string \<Rightarrow> string" where
  "skip_digits [] = []"
| "skip_digits (c # cs) = (if is_digit c then skip_digits cs else c # cs)"

definition requires_msg :: "string \<Rightarrow> string \<Rightarrow> string \<Rightarrow> string" where
  "requires_msg k what v =
     snprintf256 [''key '', [squote], k, [squote], '' requires '', what, '' value, got: '', v]"

text \<open>
  \<open>setConfVal\<close> returns the diagnostic (\<open>None\<close> for the \<open>NULL\<close> of success) and the
  entry as the call leaves it. Allocation (\<open>GDKstrdup\<close>, \<open>GDKfree\<close>) is taken to succeed.
  Here the input is \<open>NULL\<close> or a string in storage of its own, as the line buffer of
  \<open>readConfFile\<close> is; a call whose \<open>val\<close> points to the value of the entry itself is
  \<open>setConfVal_ptr\<close> below.
\<close>

definition setConfVal :: "confkeyval \<Rightarrow> string option \<Rightarrow> string option \<times> confkeyval" where
  "setConfVal ckv v =
     (case v of
        None \<Rightarrow> (None, ckv\<lparr>val := None\<rparr>)
      | Some s \<Rightarrow>
          (case type ckv of
             INVALID \<Rightarrow>
               (Some (snprintf256 [''key '', [squote], key ckv, [squote],
                  '' is unitialised (invalid value), internal error'']), ckv)
           | INT' \<Rightarrow>
               (if skip_digits s \<noteq> []
                then (Some (requires_msg (key ckv) ''an integer-type'' s), ckv)
                else (None, ckv\<lparr>val := Some s\<rparr>))
           | BOOL \<Rightarrow>
               (if strcasecmp s ''true'' = 0 \<or> strcasecmp s ''yes'' = 0 \<or> strcmp s ''1'' = 0
                then (None, ckv\<lparr>val := Some ''yes''\<rparr>)
                else if strcasecmp s ''false'' = 0 \<or> strcasecmp s ''no'' = 0 \<or> strcmp s ''0'' = 0
                then (None, ckv\<lparr>val := Some ''no''\<rparr>)
                else (Some (requires_msg (key ckv) ''a boolean-type'' s), ckv))
           | MURI \<Rightarrow>
               (if strncmp s ''mapi:monetdb://'' 15 \<noteq> 0
                then (Some (requires_msg (key ckv) ''a mapi:monetdb:// URI'' s), ckv)
                else (None, ckv\<lparr>val := Some s\<rparr>))
           | STR' \<Rightarrow> (None, ckv\<lparr>val := Some s\<rparr>)
           | OTHER \<Rightarrow> (None, ckv\<lparr>val := Some s\<rparr>)))"

text \<open>
  The argument \<open>val\<close> is a pointer: \<open>NULL\<close>, a string in storage of its own, or the
  value of the entry itself (\<open>setConfVal(ckv, ckv->val)\<close>). In the last case the checks
  read the value while it is still allocated, and a diagnostic is returned before
  anything is freed. After the checks, \<open>GDKfree(ckv->val)\<close> comes before
  \<open>GDKstrdup(val)\<close>: for BOOL \<open>val\<close> points to a literal by then; for INT, MURI, STR
  and OTHER it still points to the value that was just freed.
\<close>

datatype val_ptr = NullPtr | Separate string | OwnVal

definition setConfVal_ptr :: "confkeyval \<Rightarrow> val_ptr \<Rightarrow> fault + string option \<times> confkeyval" where
  "setConfVal_ptr ckv p =
     (case p of
        NullPtr \<Rightarrow> Inr (setConfVal ckv None)
      | Separate s \<Rightarrow> Inr (setConfVal ckv (Some s))
      | OwnVal \<Rightarrow>
          (case val ckv of
             None \<Rightarrow> Inr (setConfVal ckv None)
           | Some s \<Rightarrow>
               (case setConfVal ckv (Some s) of
                  (Some d, e) \<Rightarrow> Inr (Some d, e)
                | (None, e) \<Rightarrow>
                    if type ckv = BOOL then Inr (None, e) else Inl UseAfterFree)))"

text \<open>
  The canonical form of an input for a type, in the words of the specification: absent
  for an absent input; \<open>yes\<close> or \<open>no\<close> for a boolean input that is one of the accepted
  words; the input itself for INT, MURI, STR and OTHER. An input of an INVALID entry
  and a boolean input that is no accepted word have no canonical form.
\<close>

definition yes_like :: "string \<Rightarrow> bool" where
  "yes_like s = (map tolower s = ''true'' \<or> map tolower s = ''yes'' \<or> s = ''1'')"

definition no_like :: "string \<Rightarrow> bool" where
  "no_like s = (map tolower s = ''false'' \<or> map tolower s = ''no'' \<or> s = ''0'')"

fun canonical_form :: "confkeytype \<Rightarrow> string option \<Rightarrow> string option option" where
  "canonical_form t None = Some None"
| "canonical_form INVALID (Some s) = None"
| "canonical_form BOOL (Some s) =
     (if yes_like s then Some (Some ''yes'')
      else if no_like s then Some (Some ''no'') else None)"
| "canonical_form t (Some s) = Some (Some s)"

section \<open>Reading a config file\<close>

text \<open>
  The stream is the list of the bytes still to be read. \<open>fgets(buf, n, cnf)\<close> returns
  \<open>NULL\<close> at the end of the stream; otherwise it reads at most \<open>n - 1\<close> bytes, stops
  after a newline, and leaves the rest in the stream. The string in \<open>buf\<close> ends at the
  first NUL byte, should the file hold one.
\<close>

fun read_line :: "nat \<Rightarrow> string \<Rightarrow> string \<times> string" where
  "read_line 0 cs = ([], cs)"
| "read_line (Suc n) [] = ([], [])"
| "read_line (Suc n) (c # cs) =
     (if c = newline then ([c], cs)
      else (c # fst (read_line n cs), snd (read_line n cs)))"

definition fgets :: "nat \<Rightarrow> string \<Rightarrow> (string \<times> string) option" where
  "fgets n cnf = (if cnf = [] then None else Some (read_line (n - 1) cnf))"

definition c_string :: "string \<Rightarrow> string" where
  "c_string bytes = takeWhile (\<lambda>c. c \<noteq> NUL) bytes"

text \<open>\<open>s[i]\<close> for \<open>i \<le> strlen(s)\<close>: the byte at \<open>strlen(s)\<close> is the terminator.\<close>

definition byte_at :: "string \<Rightarrow> nat \<Rightarrow> char" where
  "byte_at s i = (if i < length s then s ! i else NUL)"

text \<open>
  A config list is the list of its entries before the sentinel (the entry whose key is
  \<open>NULL\<close>). \<open>match_keys\<close> is the \<open>for\<close> loop of \<open>readConfFile\<close> over the entries, for
  one line \<open>buf\<close>; the diagnostic of \<open>setConfVal\<close> is freed and forgotten.
\<close>

fun match_keys :: "string \<Rightarrow> confkeyval list \<Rightarrow> confkeyval list" where
  "match_keys buf [] = []"
| "match_keys buf (t # ts) =
     (let len = length (key t) in
      (if buf \<noteq> [] \<and> strncmp buf (key t) len = 0 \<and> byte_at buf len = CHR ''=''
       then snd (setConfVal t (Some (drop (len + 1) buf)))
       else t) # match_keys buf ts)"

lemma read_line_shorter:
  "0 < n \<Longrightarrow> cnf \<noteq> [] \<Longrightarrow> length (snd (read_line n cnf)) < length cnf"
proof (induction n cnf rule: read_line.induct)
  case (3 n c cs)
  then show ?case
    by (cases n; cases cs) (auto simp: less_Suc_eq)
qed simp_all

text \<open>
  The \<open>while\<close> loop of \<open>readConfFile\<close>. \<open>buf[strlen(buf) - 1] = '\0'\<close> drops the last
  byte of the string, whatever it is; on an empty string (a line that starts with a NUL
  byte) it writes before the array.
\<close>

function readConfFile :: "confkeyval list \<Rightarrow> string \<Rightarrow> fault + confkeyval list" where
  "readConfFile list cnf =
     (case fgets 1024 cnf of
        None \<Rightarrow> Inr list
      | Some (bytes, rest) \<Rightarrow>
          (let buf = c_string bytes in
           if buf = [] then Inl OutOfBounds
           else readConfFile (match_keys (butlast buf) list) rest))"
  by pat_completeness auto
termination
proof (relation "measure (\<lambda>(list, cnf). length cnf)")
  show "wf (measure (\<lambda>(list, cnf). length cnf))"
    by simp
next
  fix list :: "confkeyval list" and cnf x2 bytes rest buf
  assume "fgets 1024 cnf = Some x2" "(bytes, rest) = x2"
  then have "cnf \<noteq> []" "rest = snd (read_line 1023 cnf)"
    by (auto simp: fgets_def split: if_splits)
  then have "length rest < length cnf"
    using read_line_shorter [of 1023 cnf] by simp
  then show "((match_keys (butlast buf) list, rest), (list, cnf))
      \<in> measure (\<lambda>(list, cnf). length cnf)"
    by simp
qed

declare readConfFile.simps [simp del]

fun freeConfFile :: "confkeyval list \<Rightarrow> confkeyval list" where
  "freeConfFile [] = []"
| "freeConfFile (e # es) =
     (if val e \<noteq> None then e\<lparr>val := None\<rparr> else e) # freeConfFile es"

text \<open>
  In the words of the specification: a key matches a line when the key, followed by
  \<open>=\<close>, is a prefix of the line; the value set from the line is what follows that \<open>=\<close>.
\<close>

definition key_matches :: "string \<Rightarrow> string \<Rightarrow> bool" where
  "key_matches k line = prefix (k @ ''='') line"

definition set_from_line :: "string \<Rightarrow> confkeyval \<Rightarrow> confkeyval" where
  "set_from_line line t = snd (setConfVal t (Some (drop (length (key t) + 1) line)))"

section \<open>Buffers\<close>

text \<open>
  A byte array is the list of its bytes; a byte that was never written is \<open>None\<close>.
  \<open>memcpy(dst + off, src, n)\<close> faults when it leaves either array. \<open>buffer_string\<close>
  reads the C string at the start of an array, as \<open>GDKstrdup\<close> and \<open>strlen\<close> do.
\<close>

type_synonym buffer = "char option list"

definition bind :: "fault + 'a \<Rightarrow> ('a \<Rightarrow> fault + 'b) \<Rightarrow> fault + 'b" where
  "bind m f = (case m of Inl e \<Rightarrow> Inl e | Inr x \<Rightarrow> f x)"

definition memcpy :: "buffer \<Rightarrow> nat \<Rightarrow> string \<Rightarrow> nat \<Rightarrow> fault + buffer" where
  "memcpy dst off src n =
     (if off + n \<le> length dst \<and> n \<le> length src
      then Inr (take off dst @ map Some (take n src) @ drop (off + n) dst)
      else Inl OutOfBounds)"

fun buffer_string :: "buffer \<Rightarrow> fault + string" where
  "buffer_string [] = Inl OutOfBounds"
| "buffer_string (None # bs) = Inl Indeterminate"
| "buffer_string (Some c # bs) =
     (if c = NUL then Inr [] else bind (buffer_string bs) (\<lambda>s. Inr (c # s)))"

text \<open>\<open>strstr(s, needle) - s\<close>, or \<open>None\<close> for \<open>NULL\<close>.\<close>

fun strstr :: "string \<Rightarrow> string \<Rightarrow> nat option" where
  "strstr [] needle = (if needle = [] then Some 0 else None)"
| "strstr (c # cs) needle =
     (if prefix needle (c # cs) then Some 0 else map_option Suc (strstr cs needle))"

section \<open>Prefix substitution\<close>

text \<open>
  \<open>replacePrefix\<close> builds its result in a local \<open>char buf[1024]\<close> and returns a copy
  of the string it finds there. The parameter \<open>prefix\<close> is written \<open>prefix'\<close>.
\<close>

definition replacePrefix :: "string option \<Rightarrow> string \<Rightarrow> fault + string option" where
  "replacePrefix s prefix' =
     (case s of
        None \<Rightarrow> Inr None
      | Some s \<Rightarrow>
          (let buf = replicate 1024 None in
           bind
             (case strstr s ''${prefix}'' of
                Some p \<Rightarrow>
                  bind (memcpy buf 0 s p) (\<lambda>buf.
                  bind (memcpy buf p prefix' (length prefix')) (\<lambda>buf.
                  memcpy buf (p + length prefix') (drop (p + 9) (s @ [NUL]))
                    (length s - 9 - p + 1)))
              | None \<Rightarrow> memcpy buf 0 (s @ [NUL]) (length s + 1))
             (\<lambda>buf. bind (buffer_string buf) (\<lambda>r. Inr (Some r)))))"

text \<open>
  In the words of the specification: the first occurrence of a token in a string is the
  least offset at which the token is a prefix of what follows.
\<close>

definition occurs_at :: "string \<Rightarrow> string \<Rightarrow> nat \<Rightarrow> bool" where
  "occurs_at tok s p = (p \<le> length s \<and> prefix tok (drop p s))"

definition first_occurrence :: "string \<Rightarrow> string \<Rightarrow> nat option" where
  "first_occurrence tok s = List.find (occurs_at tok s) [0..<length s + 1]"

section \<open>Abbreviating a string\<close>

text \<open>
  Subtraction on \<open>size_t\<close> (64 bits) wraps around. The three \<open>memcpy\<close> calls of
  \<open>abbreviateString\<close> write into the array \<open>ret\<close> of the caller; \<open>sprintf(ret, "%s", in)\<close>
  copies the string and its terminator. The parameter \<open>in\<close> is written \<open>inp\<close>.
\<close>

definition size_sub :: "nat \<Rightarrow> nat \<Rightarrow> nat" where
  "size_sub a b = (if b \<le> a then a - b else a + 2 ^ 64 - b)"

definition abbreviateString :: "buffer \<Rightarrow> string \<Rightarrow> nat \<Rightarrow> fault + buffer" where
  "abbreviateString ret inp width =
     (let len = length inp in
      if len > width then
        bind (memcpy ret 0 (inp @ [NUL]) (size_sub (width div 2) 3)) (\<lambda>ret.
        bind (memcpy ret (size_sub (width div 2) 2) ''...'' 3) (\<lambda>ret.
        let off = size_sub len (size_sub (size_sub width (size_sub (width div 2) 2)) 3) in
        memcpy ret (width div 2 + 1) (drop off (inp @ [NUL])) (size_sub len off + 1)))
      else memcpy ret 0 (inp @ [NUL]) (len + 1))"

section \<open>Formatting a duration\<close>

text \<open>
  \<open>sprintf("%d", i)\<close> writes the decimal digits of \<open>i\<close>, after a minus sign when \<open>i\<close> is
  negative. The cast \<open>(int)\<close> keeps the low 32 bits of a \<open>time_t\<close>, read as a signed
  number. A \<open>time_t\<close> is a signed 64-bit integer, modelled by an integer; the theorems
  below stay within its range.
\<close>

definition digit_char :: "nat \<Rightarrow> char" where
  "digit_char d = char_of (48 + d)"

fun show_nat :: "nat \<Rightarrow> string" where
  "show_nat n = (if n < 10 then [digit_char n] else show_nat (n div 10) @ [digit_char (n mod 10)])"

declare show_nat.simps [simp del]

definition show_int :: "int \<Rightarrow> string" where
  "show_int i = (if i < 0 then CHR ''-'' # show_nat (nat (- i)) else show_nat (nat i))"

definition int_cast :: "int \<Rightarrow> int" where
  "int_cast x = sint (word_of_int x :: 32 word)"

text \<open>
  \<open>secondsToString\<close> repeats one block for the weeks, the days, the hours and the
  minutes, with \<open>p\<close> = 604800, 86400, 3600 and 60. \<open>emit_unit\<close> is that block: \<open>buf\<close> is
  the string written so far (\<open>i\<close> is its length), and \<open>Inl\<close> is the \<open>return\<close> inside the
  block. \<open>t / p\<close> is only computed for \<open>t > p > 0\<close>, where the division of C and \<open>div\<close>
  agree.
\<close>

definition emit_unit :: "int \<Rightarrow> char \<Rightarrow> string \<times> int \<times> int \<Rightarrow> string + string \<times> int \<times> int" where
  "emit_unit p u st =
     (case st of (buf, t, longness) \<Rightarrow>
        if t > p then
          (let buf = buf @ show_int (int_cast (t div p)) @ [u];
               t = t - (t div p) * p;
               longness = longness - 1
           in if longness = 0 then Inl buf else Inr (buf @ '' '', t, longness))
        else Inr (buf, t, longness))"

definition secondsToString :: "int \<Rightarrow> int \<Rightarrow> string" where
  "secondsToString t longness =
     (case emit_unit 604800 CHR ''w'' ([], t, longness) of
        Inl r \<Rightarrow> r
      | Inr st \<Rightarrow>
     (case emit_unit 86400 CHR ''d'' st of
        Inl r \<Rightarrow> r
      | Inr st \<Rightarrow>
     (case emit_unit 3600 CHR ''h'' st of
        Inl r \<Rightarrow> r
      | Inr st \<Rightarrow>
     (case emit_unit 60 CHR ''m'' st of
        Inl r \<Rightarrow> r
      | Inr (buf, t, longness) \<Rightarrow>
          if longness - 1 = 0 \<or> \<not> (buf \<noteq> [] \<and> t = 0)
          then buf @ show_int (int_cast t) @ ''s''
          else butlast buf))))"

text \<open>
  Reading a duration back, in the words of the specification: the string is split at
  the spaces; each component is an integer followed by one of the unit letters; the
  value is the sum of the integers times the weights of their units.
\<close>

fun split_on :: "char \<Rightarrow> string \<Rightarrow> string list" where
  "split_on c [] = [[]]"
| "split_on c (x # xs) =
     (if x = c then [] # split_on c xs
      else (x # hd (split_on c xs)) # tl (split_on c xs))"

definition digit_value :: "char \<Rightarrow> nat" where
  "digit_value c = of_char c - 48"

definition parse_nat :: "string \<Rightarrow> nat option" where
  "parse_nat s =
     (if s \<noteq> [] \<and> list_all is_digit s
      then Some (foldl (\<lambda>a c. 10 * a + digit_value c) 0 s) else None)"

definition parse_int :: "string \<Rightarrow> int option" where
  "parse_int s =
     (case s of
        [] \<Rightarrow> None
      | c # cs \<Rightarrow> if c = CHR ''-'' then map_option (\<lambda>n. - int n) (parse_nat cs)
                  else map_option int (parse_nat s))"

definition unit_weight :: "char \<Rightarrow> int option" where
  "unit_weight u =
     (if u = CHR ''w'' then Some 604800 else if u = CHR ''d'' then Some 86400
      else if u = CHR ''h'' then Some 3600 else if u = CHR ''m'' then Some 60
      else if u = CHR ''s'' then Some 1 else None)"

definition parse_component :: "string \<Rightarrow> int option" where
  "parse_component c =
     (if c = [] then None
      else case (parse_int (butlast c), unit_weight (last c)) of
             (Some n, Some w) \<Rightarrow> Some (n * w)
           | _ \<Rightarrow> None)"

fun sum_components :: "string list \<Rightarrow> int option" where
  "sum_components [] = Some 0"
| "sum_components (c # cs) =
     (case (parse_component c, sum_components cs) of
        (Some a, Some b) \<Rightarrow> Some (a + b)
      | _ \<Rightarrow> None)"

definition parse_duration :: "string \<Rightarrow> int option" where
  "parse_duration s = sum_components (split_on CHR '' '' s)"


text \<open>The components written so far, each followed by a space.\<close>

definition join_trailing :: "string list \<Rightarrow> string" where
  "join_trailing comps = concat (map (\<lambda>c. c @ '' '') comps)"

section \<open>Generating a salt\<close>

text \<open>
  The random source is the sequence of the values that \<open>rand()\<close> is still to return;
  \<open>rand\<close> takes the first one. The values of \<open>rand()\<close> are not negative, so the
  conversion to \<open>unsigned int\<close> and \<open>% 62\<close> are those of the natural numbers.
\<close>

type_synonym rng = "nat \<Rightarrow> nat"

definition rand :: "rng \<Rightarrow> nat \<times> rng" where
  "rand g = (g 0, \<lambda>i. g (Suc i))"

definition seedChars :: string where
  "seedChars = ''abcdefghijklmnopqrstuvwxyzABCDEFGHIJKLMNOPQRSTUVWXYZ1234567890''"

text \<open>
  \<open>unsigned int fill = len * 0.75\<close> and \<open>unsigned int min = len * 0.42\<close> multiply in
  double precision and drop the fraction. The model takes the floor of the exact
  product, which is the same number for every \<open>unsigned int len\<close>: \<open>len * 0.75\<close> is
  exact, since 0.75 is a binary fraction; the double nearest to 0.42 is below it by less
  than 2^-54 of its value, so the double product of a 32-bit \<open>len\<close> is below the exact
  one by less than 2^-23, is rounded to the exact product where that is an integer (the
  distance is less than half a unit in the last place), and stays above the integer
  below it where it is not (the fraction is then at least 0.02).
\<close>

definition salt_fill :: "nat \<Rightarrow> nat" where
  "salt_fill len = nat \<lfloor>real len * 0.75\<rfloor>"

definition salt_min :: "nat \<Rightarrow> nat" where
  "salt_min len = nat \<lfloor>real len * 0.42\<rfloor>"

text \<open>
  The two \<open>for\<close> loops of \<open>generateSalt\<close>, from \<open>c\<close> on. \<open>size\<close> and \<open>min\<close> are written
  \<open>size'\<close> and \<open>min'\<close>.
\<close>

function salt_chars :: "nat \<Rightarrow> nat \<Rightarrow> buffer \<Rightarrow> rng \<Rightarrow> buffer \<times> rng" where
  "salt_chars c size' buf g =
     (if c < size'
      then salt_chars (c + 1) size' (buf[c := Some (seedChars ! (fst (rand g) mod 62))]) (snd (rand g))
      else (buf, g))"
  by pat_completeness auto
termination
  by (relation "measure (\<lambda>(c, size', buf, g). size' - c)") auto

declare salt_chars.simps [simp del]

function salt_zeros :: "nat \<Rightarrow> nat \<Rightarrow> buffer \<Rightarrow> buffer" where
  "salt_zeros c len buf =
     (if c < len then salt_zeros (c + 1) len (buf[c := Some NUL]) else buf)"
  by pat_completeness auto
termination
  by (relation "measure (\<lambda>(c, len, buf). len - c)") auto

declare salt_zeros.simps [simp del]

text \<open>
  \<open>size % (fill - min)\<close> divides by zero when the two bounds are equal. The loops write
  every byte below \<open>len\<close>, so they stay inside the array when it has \<open>len\<close> bytes at
  least. The result is the array and the random source as the call leaves them.
\<close>

definition generateSalt :: "buffer \<Rightarrow> nat \<Rightarrow> rng \<Rightarrow> fault + buffer \<times> rng" where
  "generateSalt buf len g =
     (let size' = fst (rand g); g = snd (rand g);
          fill = salt_fill len; min' = salt_min len
      in if fill - min' = 0 then Inl DivisionByZero
         else let size' = size' mod (fill - min') + min'
              in if length buf < len then Inl OutOfBounds
                 else let (buf, g) = salt_chars 0 size' buf g
                      in Inr (salt_zeros size' len buf, g))"

text \<open>The alphabet, in the words of the specification: letters and digits.\<close>

definition is_alnum :: "char \<Rightarrow> bool" where
  "is_alnum c = (let n = (of_char c :: nat) in
     (97 \<le> n \<and> n \<le> 122) \<or> (65 \<le> n \<and> n \<le> 90) \<or> (48 \<le> n \<and> n \<le> 57))"

section \<open>Properties of the C library model\<close>

lemma strcmp_eq_0: "strcmp a b = 0 \<longleftrightarrow> a = b"
  by (induction a b rule: strcmp.induct) auto

lemma strcasecmp_eq_0: "strcasecmp a b = 0 \<longleftrightarrow> map tolower a = map tolower b"
  by (induction a b rule: strcasecmp.induct) auto

lemma strncmp_eq_0: "strncmp a b n = 0 \<longleftrightarrow> take n a = take n b"
  by (induction a b n rule: strncmp.induct) auto

lemma tolower_words:
  "map tolower ''true'' = ''true''" "map tolower ''yes'' = ''yes''"
  "map tolower ''false'' = ''false''" "map tolower ''no'' = ''no''"
  by code_simp+

lemma bool_test_yes:
  "(strcasecmp s ''true'' = 0 \<or> strcasecmp s ''yes'' = 0 \<or> strcmp s ''1'' = 0) = yes_like s"
  by (simp only: strcasecmp_eq_0 strcmp_eq_0 tolower_words yes_like_def)

lemma bool_test_no:
  "(strcasecmp s ''false'' = 0 \<or> strcasecmp s ''no'' = 0 \<or> strcmp s ''0'' = 0) = no_like s"
  by (simp only: strcasecmp_eq_0 strcmp_eq_0 tolower_words no_like_def)

lemma skip_digits_dropWhile: "skip_digits s = dropWhile is_digit s"
  by (induction s) auto

lemma skip_digits_empty_iff: "skip_digits s = [] \<longleftrightarrow> (\<forall>c \<in> set s. is_digit c)"
  by (induction s) auto

section \<open>Setting a value\<close>

lemma setConfVal_BOOL:
  "type e = BOOL \<Longrightarrow> setConfVal e (Some s) =
     (if yes_like s then (None, e\<lparr>val := Some ''yes''\<rparr>)
      else if no_like s then (None, e\<lparr>val := Some ''no''\<rparr>)
      else (Some (requires_msg (key e) ''a boolean-type'' s), e))"
  by (simp add: setConfVal_def bool_test_yes bool_test_no)

text \<open>
  For an input that is \<open>NULL\<close> or a string in storage of its own, \<open>setConfVal\<close> either
  returns a diagnostic and leaves the value of the entry as it was, or returns \<open>NULL\<close>
  and the value is the canonical form of the input for the type of the entry.
\<close>

lemma setConfVal_atomic_separate:
  "(\<exists>d. fst (setConfVal e v) = Some d \<and> val (snd (setConfVal e v)) = val e)
   \<or> (fst (setConfVal e v) = None
      \<and> canonical_form (type e) v = Some (val (snd (setConfVal e v))))"
proof (cases v)
  case None
  then show ?thesis by (simp add: setConfVal_def)
next
  case (Some s)
  show ?thesis
  proof (cases "type e")
    case BOOL
    then show ?thesis using Some by (simp add: setConfVal_BOOL)
  qed (simp_all add: Some setConfVal_def)
qed

lemma setConfVal_ptr_fault_iff:
  "setConfVal_ptr e p = Inl f \<longleftrightarrow>
     f = UseAfterFree \<and> p = OwnVal \<and> type e \<noteq> BOOL
     \<and> (\<exists>s. val e = Some s \<and> fst (setConfVal e (Some s)) = None)"
  by (cases p; cases "val e")
    (auto simp: setConfVal_ptr_def split: prod.splits option.splits)

text \<open>
  C1. Handing an entry of type STR its own value, \<open>setConfVal(ckv, ckv->val)\<close>, passes
  the check, frees the value and then duplicates the string that was freed: the call is
  neither a refusal that keeps the value nor a success that stores the input.
\<close>

theorem setConfVal_own_value_freed:
  "setConfVal_ptr \<lparr>key = ''dbname'', type = STR', val = Some ''demo''\<rparr> OwnVal
     = Inl UseAfterFree"
  by (simp add: setConfVal_ptr_def setConfVal_def)

lemma yes_no_disjoint: "yes_like s \<Longrightarrow> \<not> no_like s"
  by (auto simp: yes_like_def no_like_def)

lemma tolower_eval:
  "tolower c = (if 65 \<le> (of_char c :: nat) \<and> (of_char c :: nat) \<le> 90
                then char_of (of_char c + 32 :: nat) else c)"
  by (simp add: tolower_def Let_def)

lemmas char_eval = tolower_eval char_of_eq_iff take_bit_eq_mod

lemma tolower_WORDS:
  "map tolower ''TRUE'' = ''true''" "map tolower ''YES'' = ''yes''"
  "map tolower ''FALSE'' = ''false''" "map tolower ''NO'' = ''no''"
  by code_simp+

lemma yes_likeI:
  "yes_like ''true''" "yes_like ''TRUE''" "yes_like ''yes''" "yes_like ''YES''" "yes_like ''1''"
  by (simp_all only: yes_like_def tolower_WORDS tolower_words simp_thms)

lemma no_likeI:
  "no_like ''false''" "no_like ''FALSE''" "no_like ''no''" "no_like ''NO''" "no_like ''0''"
  by (simp_all only: no_like_def tolower_WORDS tolower_words simp_thms)

lemma yes_like_listed: "s \<in> {''true'', ''TRUE'', ''yes'', ''YES'', ''1''} \<Longrightarrow> yes_like s"
  using yes_likeI by blast

lemma no_like_listed: "s \<in> {''false'', ''FALSE'', ''no'', ''NO'', ''0''} \<Longrightarrow> no_like s"
  using no_likeI by blast

lemma yes_like_lower: "map tolower s \<in> {''true'', ''yes''} \<Longrightarrow> yes_like s"
  unfolding yes_like_def by blast

lemma no_like_lower: "map tolower s \<in> {''false'', ''no''} \<Longrightarrow> no_like s"
  unfolding no_like_def by blast

lemma not_in_words:
  "x \<notin> {a, b, c, d} \<and> s \<notin> {e, f}
   \<Longrightarrow> \<not> (x = a \<or> x = b \<or> s = e) \<and> \<not> (x = c \<or> x = d \<or> s = f)"
  by blast

lemma neither_like:
  "map tolower s \<notin> {''true'', ''yes'', ''false'', ''no''} \<and> s \<notin> {''1'', ''0''}
   \<Longrightarrow> \<not> yes_like s \<and> \<not> no_like s"
  unfolding yes_like_def no_like_def by (rule not_in_words)

text \<open>
  C2. For an entry of type BOOL: the inputs \<open>true\<close>, \<open>TRUE\<close>, \<open>yes\<close>, \<open>YES\<close> and \<open>1\<close>
  are accepted and \<open>yes\<close> is stored; the inputs \<open>false\<close>, \<open>FALSE\<close>, \<open>no\<close>, \<open>NO\<close> and
  \<open>0\<close> are accepted and \<open>no\<close> is stored; the four words are matched whatever the case
  of their letters; every other input is answered by a diagnostic (and the entry is
  left as it was).
\<close>

theorem setConfVal_BOOL_coercion:
  assumes "type e = BOOL"
  shows "(s \<in> {''true'', ''TRUE'', ''yes'', ''YES'', ''1''} \<longrightarrow>
            setConfVal e (Some s) = (None, e\<lparr>val := Some ''yes''\<rparr>))
       \<and> (s \<in> {''false'', ''FALSE'', ''no'', ''NO'', ''0''} \<longrightarrow>
            setConfVal e (Some s) = (None, e\<lparr>val := Some ''no''\<rparr>))
       \<and> (map tolower s \<in> {''true'', ''yes''} \<longrightarrow>
            setConfVal e (Some s) = (None, e\<lparr>val := Some ''yes''\<rparr>))
       \<and> (map tolower s \<in> {''false'', ''no''} \<longrightarrow>
            setConfVal e (Some s) = (None, e\<lparr>val := Some ''no''\<rparr>))
       \<and> (map tolower s \<notin> {''true'', ''yes'', ''false'', ''no''} \<and> s \<notin> {''1'', ''0''} \<longrightarrow>
            (\<exists>d. fst (setConfVal e (Some s)) = Some d) \<and> snd (setConfVal e (Some s)) = e)"
proof -
  have yes: "setConfVal e (Some s) = (None, e\<lparr>val := Some ''yes''\<rparr>)" if "yes_like s"
    using that assms by (simp add: setConfVal_BOOL)
  have no: "setConfVal e (Some s) = (None, e\<lparr>val := Some ''no''\<rparr>)" if "no_like s"
  proof -
    have "\<not> yes_like s"
      using that yes_no_disjoint by blast
    then show ?thesis
      using that assms by (simp add: setConfVal_BOOL)
  qed
  have other: "(\<exists>d. fst (setConfVal e (Some s)) = Some d) \<and> snd (setConfVal e (Some s)) = e"
    if "\<not> yes_like s \<and> \<not> no_like s"
    using that assms by (simp add: setConfVal_BOOL)
  show ?thesis
  proof (intro conjI impI)
    assume "s \<in> {''true'', ''TRUE'', ''yes'', ''YES'', ''1''}"
    then show "setConfVal e (Some s) = (None, e\<lparr>val := Some ''yes''\<rparr>)"
      by (rule yes [OF yes_like_listed])
  next
    assume "s \<in> {''false'', ''FALSE'', ''no'', ''NO'', ''0''}"
    then show "setConfVal e (Some s) = (None, e\<lparr>val := Some ''no''\<rparr>)"
      by (rule no [OF no_like_listed])
  next
    assume "map tolower s \<in> {''true'', ''yes''}"
    then show "setConfVal e (Some s) = (None, e\<lparr>val := Some ''yes''\<rparr>)"
      by (rule yes [OF yes_like_lower])
  next
    assume "map tolower s \<in> {''false'', ''no''}"
    then show "setConfVal e (Some s) = (None, e\<lparr>val := Some ''no''\<rparr>)"
      by (rule no [OF no_like_lower])
  next
    assume a: "map tolower s \<notin> {''true'', ''yes'', ''false'', ''no''} \<and> s \<notin> {''1'', ''0''}"
    show "\<exists>d. fst (setConfVal e (Some s)) = Some d"
      using other [OF neither_like [OF a]] by (rule conjunct1)
    show "snd (setConfVal e (Some s)) = e"
      using other [OF neither_like [OF a]] by (rule conjunct2)
  qed
qed

theorem setConfVal_BOOL_coercion_witness:
  "setConfVal \<lparr>key = ''exit'', type = BOOL, val = None\<rparr> (Some ''TRUE'')
     = (None, \<lparr>key = ''exit'', type = BOOL, val = Some ''yes''\<rparr>)
   \<and> setConfVal \<lparr>key = ''exit'', type = BOOL, val = Some ''yes''\<rparr> (Some ''0'')
     = (None, \<lparr>key = ''exit'', type = BOOL, val = Some ''no''\<rparr>)
   \<and> snd (setConfVal \<lparr>key = ''exit'', type = BOOL, val = Some ''yes''\<rparr> (Some ''maybe''))
     = \<lparr>key = ''exit'', type = BOOL, val = Some ''yes''\<rparr>"
proof (intro conjI)
  show "setConfVal \<lparr>key = ''exit'', type = BOOL, val = None\<rparr> (Some ''TRUE'')
     = (None, \<lparr>key = ''exit'', type = BOOL, val = Some ''yes''\<rparr>)"
    using setConfVal_BOOL_coercion [of "\<lparr>key = ''exit'', type = BOOL, val = None\<rparr>" "''TRUE''"]
    by simp
  show "setConfVal \<lparr>key = ''exit'', type = BOOL, val = Some ''yes''\<rparr> (Some ''0'')
     = (None, \<lparr>key = ''exit'', type = BOOL, val = Some ''no''\<rparr>)"
    using setConfVal_BOOL_coercion [of "\<lparr>key = ''exit'', type = BOOL, val = Some ''yes''\<rparr>" "''0''"]
    by simp
  have m: "map tolower ''maybe'' = ''maybe''"
    by code_simp
  show "snd (setConfVal \<lparr>key = ''exit'', type = BOOL, val = Some ''yes''\<rparr> (Some ''maybe''))
     = \<lparr>key = ''exit'', type = BOOL, val = Some ''yes''\<rparr>"
    using setConfVal_BOOL_coercion [of "\<lparr>key = ''exit'', type = BOOL, val = Some ''yes''\<rparr>" "''maybe''",
        unfolded m]
    by simp
qed

lemma setConfVal_INT_diag_iff:
  "type e = INT' \<Longrightarrow> (fst (setConfVal e (Some s)) \<noteq> None) = (\<exists>c \<in> set s. \<not> is_digit c)"
  by (simp add: setConfVal_def skip_digits_empty_iff)

text \<open>
  C3. An entry of type INT refuses every input with a byte that is not a decimal digit,
  but it does not refuse the empty string: the loop over the digits stops at once, the
  terminator is what it finds, and the empty string is stored.
\<close>

theorem setConfVal_INT_empty_accepted:
  "setConfVal \<lparr>key = ''port'', type = INT', val = Some ''50000''\<rparr> (Some [])
     = (None, \<lparr>key = ''port'', type = INT', val = Some []\<rparr>)"
  by (simp add: setConfVal_def)

section \<open>Reading and freeing a config list\<close>

lemma c_string_id: "NUL \<notin> set s \<Longrightarrow> c_string s = s"
  by (auto simp: c_string_def takeWhile_eq_all_conv)

lemma newline_not_NUL: "newline \<noteq> NUL"
  by (simp add: NUL_def newline_def)

lemma eq_not_NUL: "CHR ''='' \<noteq> NUL"
  by (simp add: NUL_def)

lemma key_test:
  "(buf \<noteq> [] \<and> strncmp buf k (length k) = 0 \<and> byte_at buf (length k) = CHR ''='')
     = key_matches k buf"
proof -
  have "prefix (k @ [c]) buf \<longleftrightarrow> take (length k) buf = k \<and> length k < length buf \<and> buf ! length k = c"
    for c
  proof
    assume "prefix (k @ [c]) buf"
    then obtain r where "buf = k @ c # r"
      by (auto simp: prefix_def)
    then show "take (length k) buf = k \<and> length k < length buf \<and> buf ! length k = c"
      by simp
  next
    assume a: "take (length k) buf = k \<and> length k < length buf \<and> buf ! length k = c"
    then have "buf = k @ c # drop (Suc (length k)) buf"
      by (metis append_take_drop_id Cons_nth_drop_Suc)
    then show "prefix (k @ [c]) buf"
      by (metis append.assoc append_Cons append_Nil prefixI)
  qed
  moreover have "byte_at buf (length k) = CHR ''='' \<longleftrightarrow> length k < length buf \<and> buf ! length k = CHR ''=''"
    using eq_not_NUL by (auto simp: byte_at_def)
  moreover have "take (length k) buf = k \<Longrightarrow> length k < length buf \<Longrightarrow> buf \<noteq> []"
    by auto
  ultimately show ?thesis
    unfolding key_matches_def strncmp_eq_0 by auto
qed

lemma match_keys_map:
  "match_keys buf l = map (\<lambda>t. if key_matches (key t) buf then set_from_line buf t else t) l"
  by (induction l) (simp_all add: key_test Let_def set_from_line_def)

lemma takeWhile_upto: "c \<notin> set k \<Longrightarrow> takeWhile (\<lambda>x. x \<noteq> c) (k @ c # r) = k"
  by (induction k) auto

lemma key_matches_unique:
  assumes "key_matches k1 line" "key_matches k2 line"
    and "CHR ''='' \<notin> set k1" "CHR ''='' \<notin> set k2"
  shows "k1 = k2"
proof -
  obtain r1 where "line = k1 @ CHR ''='' # r1"
    using assms(1) by (auto simp: key_matches_def prefix_def)
  then have 1: "takeWhile (\<lambda>x. x \<noteq> CHR ''='') line = k1"
    using assms(3) by (simp add: takeWhile_upto)
  obtain r2 where "line = k2 @ CHR ''='' # r2"
    using assms(2) by (auto simp: key_matches_def prefix_def)
  then have 2: "takeWhile (\<lambda>x. x \<noteq> CHR ''='') line = k2"
    using assms(4) by (simp add: takeWhile_upto)
  show ?thesis
    using 1 2 by simp
qed

lemma setConfVal_key: "key (snd (setConfVal e v)) = key e"
  by (simp add: setConfVal_def split: option.splits confkeytype.splits)

lemma setConfVal_type: "type (snd (setConfVal e v)) = type e"
  by (simp add: setConfVal_def split: option.splits confkeytype.splits)

lemma match_keys_key: "map key (match_keys buf l) = map key l"
  by (simp add: match_keys_map set_from_line_def setConfVal_key)

lemma match_keys_type: "map type (match_keys buf l) = map type l"
  by (simp add: match_keys_map set_from_line_def setConfVal_type)

lemma read_line_append: "fst (read_line n cnf) @ snd (read_line n cnf) = cnf"
  by (induction n cnf rule: read_line.induct) auto

lemma read_line_nonempty: "0 < n \<Longrightarrow> cnf \<noteq> [] \<Longrightarrow> fst (read_line n cnf) \<noteq> []"
  by (cases n; cases cnf) auto

lemma read_line_whole:
  "newline \<notin> set line \<Longrightarrow> length line < n \<Longrightarrow>
     read_line n (line @ newline # rest) = (line @ [newline], rest)"
proof (induction line arbitrary: n)
  case Nil
  then show ?case by (cases n) auto
next
  case (Cons c line)
  then show ?case by (cases n) auto
qed

lemma readConfFile_step:
  assumes "NUL \<notin> set line" "newline \<notin> set line" "length line \<le> 1022"
  shows "readConfFile l (line @ newline # rest) = readConfFile (match_keys line l) rest"
proof -
  have "fgets 1024 (line @ newline # rest) = Some (line @ [newline], rest)"
    using assms(2,3) by (simp add: fgets_def read_line_whole)
  moreover have "c_string (line @ [newline]) = line @ [newline]"
    using assms(1) newline_not_NUL by (simp add: c_string_id)
  ultimately show ?thesis
    by (subst readConfFile.simps) simp
qed

lemma readConfFile_frame:
  "readConfFile l cnf = Inr l' \<Longrightarrow> map key l' = map key l \<and> map type l' = map type l"
proof (induction l cnf rule: readConfFile.induct)
  case (1 list cnf)
  show ?case
  proof (cases "fgets 1024 cnf")
    case None
    then show ?thesis using "1.prems" by (subst (asm) readConfFile.simps) simp
  next
    case (Some x)
    obtain bytes rest where x: "x = (bytes, rest)" by (cases x)
    show ?thesis
    proof (cases "c_string bytes = []")
      case True
      then show ?thesis using "1.prems" Some x by (subst (asm) readConfFile.simps) simp
    next
      case False
      then have "readConfFile (match_keys (butlast (c_string bytes)) list) rest = Inr l'"
        using "1.prems" Some x by (subst (asm) readConfFile.simps) simp
      then have "map key l' = map key (match_keys (butlast (c_string bytes)) list)
          \<and> map type l' = map type (match_keys (butlast (c_string bytes)) list)"
        using "1.IH" [OF Some x [symmetric] refl False] by simp
      then show ?thesis
        by (simp add: match_keys_key match_keys_type)
    qed
  qed
qed

lemma readConfFile_returns:
  "NUL \<notin> set cnf \<Longrightarrow> \<exists>l'. readConfFile l cnf = Inr l'"
proof (induction l cnf rule: readConfFile.induct)
  case (1 list cnf)
  show ?case
  proof (cases "fgets 1024 cnf")
    case None
    then show ?thesis by (subst readConfFile.simps) simp
  next
    case (Some x)
    obtain bytes rest where x: "x = (bytes, rest)" by (cases x)
    have ne: "cnf \<noteq> []" and br: "bytes = fst (read_line 1023 cnf)" "rest = snd (read_line 1023 cnf)"
      using Some x by (auto simp: fgets_def split: if_splits)
    have cnf: "bytes @ rest = cnf"
      using br read_line_append by simp
    have "bytes \<noteq> []"
      using br ne read_line_nonempty [of 1023 cnf] by simp
    moreover have "NUL \<notin> set bytes" "NUL \<notin> set rest"
      using cnf "1.prems" by auto
    ultimately have cs: "c_string bytes \<noteq> []"
      by (simp add: c_string_id)
    have "\<exists>l'. readConfFile (match_keys (butlast (c_string bytes)) list) rest = Inr l'"
      using "1.IH" [OF Some x [symmetric] refl cs] \<open>NUL \<notin> set rest\<close> by simp
    then show ?thesis
      using Some x cs by (subst readConfFile.simps) simp
  qed
qed


lemma readConfFile_eof: "readConfFile l [] = Inr l"
  by (subst readConfFile.simps) (simp add: fgets_def)

lemma match_keys_only:
  assumes "distinct (map key l)" "\<forall>t\<in>set l. CHR ''='' \<notin> set (key t)"
    and "i < length l" "key_matches (key (l ! i)) line"
  shows "match_keys line l = l[i := set_from_line line (l ! i)]"
proof (rule nth_equalityI)
  show "length (match_keys line l) = length (l[i := set_from_line line (l ! i)])"
    by (simp add: match_keys_map)
next
  fix j assume "j < length (match_keys line l)"
  then have j: "j < length l"
    by (simp add: match_keys_map)
  show "match_keys line l ! j = l[i := set_from_line line (l ! i)] ! j"
  proof (cases "j = i")
    case True
    then show ?thesis using assms(3,4) by (simp add: match_keys_map)
  next
    case False
    then have "key (l ! j) \<noteq> key (l ! i)"
      using assms(1,3) j by (simp add: distinct_conv_nth)
    moreover have "CHR ''='' \<notin> set (key (l ! j))" "CHR ''='' \<notin> set (key (l ! i))"
      using assms(2,3) j by simp_all
    ultimately have "\<not> key_matches (key (l ! j)) line"
      using assms(4) key_matches_unique by blast
    then show ?thesis
      using False j by (simp add: match_keys_map)
  qed
qed

text \<open>
  C4, as the code has it. A line of at most 1022 bytes that ends with a newline is
  processed by one pass over the entries. The pass applies \<open>setConfVal\<close> to every
  entry whose key, followed by \<open>=\<close>, is a prefix of the line (not to the first one
  only), each with the bytes after its own \<open>=\<close>, and leaves every other entry as it
  was; a line that no key matches leaves the list as it was. When the keys are
  distinct and hold no \<open>=\<close>, at most one entry matches, and the pass changes that entry
  alone.
\<close>

theorem readConfFile_line:
  assumes "NUL \<notin> set line" "newline \<notin> set line" "length line \<le> 1022"
  shows "readConfFile l (line @ newline # rest) = readConfFile (match_keys line l) rest
     \<and> length (match_keys line l) = length l
     \<and> (\<forall>i<length l. match_keys line l ! i =
           (if key_matches (key (l ! i)) line then set_from_line line (l ! i) else l ! i))
     \<and> ((\<forall>t\<in>set l. \<not> key_matches (key t) line) \<longrightarrow> match_keys line l = l)
     \<and> (distinct (map key l) \<and> (\<forall>t\<in>set l. CHR ''='' \<notin> set (key t)) \<longrightarrow>
          (\<forall>i<length l. key_matches (key (l ! i)) line \<longrightarrow>
             match_keys line l = l[i := set_from_line line (l ! i)]))"
proof (intro conjI)
  show "readConfFile l (line @ newline # rest) = readConfFile (match_keys line l) rest"
    using assms by (rule readConfFile_step)
  show "length (match_keys line l) = length l"
    by (simp add: match_keys_map)
  show "\<forall>i<length l. match_keys line l ! i =
           (if key_matches (key (l ! i)) line then set_from_line line (l ! i) else l ! i)"
    by (simp add: match_keys_map)
  show "(\<forall>t\<in>set l. \<not> key_matches (key t) line) \<longrightarrow> match_keys line l = l"
    by (simp add: match_keys_map map_idI)
  show "distinct (map key l) \<and> (\<forall>t\<in>set l. CHR ''='' \<notin> set (key t)) \<longrightarrow>
          (\<forall>i<length l. key_matches (key (l ! i)) line \<longrightarrow>
             match_keys line l = l[i := set_from_line line (l ! i)])"
    using match_keys_only by blast
qed

theorem readConfFile_line_witness:
  "match_keys ''port=50000''
     [\<lparr>key = ''port'', type = INT', val = None\<rparr>, \<lparr>key = ''logfile'', type = STR', val = None\<rparr>]
   = [\<lparr>key = ''port'', type = INT', val = Some ''50000''\<rparr>,
      \<lparr>key = ''logfile'', type = STR', val = None\<rparr>]
   \<and> readConfFile
     [\<lparr>key = ''port'', type = INT', val = None\<rparr>, \<lparr>key = ''logfile'', type = STR', val = None\<rparr>]
     (''port=50000'' @ [newline])
   = Inr [\<lparr>key = ''port'', type = INT', val = Some ''50000''\<rparr>,
      \<lparr>key = ''logfile'', type = STR', val = None\<rparr>]"
proof -
  let ?l = "[\<lparr>key = ''port'', type = INT', val = None\<rparr>, \<lparr>key = ''logfile'', type = STR', val = None\<rparr>]"
  have h: "NUL \<notin> set ''port=50000''" "newline \<notin> set ''port=50000''" "length ''port=50000'' \<le> 1022"
    by (simp_all add: NUL_def newline_def)
  note t = readConfFile_line [OF h, of ?l "[]"]
  have d: "distinct (map key ?l) \<and> (\<forall>t\<in>set ?l. CHR ''='' \<notin> set (key t))"
    by simp
  have m: "key_matches (key (?l ! 0)) ''port=50000''"
    by (simp add: key_matches_def)
  have n: "0 < length ?l"
    by simp
  have s: "?l[0 := set_from_line ''port=50000'' (?l ! 0)]
      = [\<lparr>key = ''port'', type = INT', val = Some ''50000''\<rparr>,
         \<lparr>key = ''logfile'', type = STR', val = None\<rparr>]"
    by (simp add: set_from_line_def setConfVal_def is_digit_def)
  have 1: "match_keys ''port=50000'' ?l = ?l[0 := set_from_line ''port=50000'' (?l ! 0)]"
    by (rule t [THEN conjunct2, THEN conjunct2, THEN conjunct2, THEN conjunct2, rule_format,
          OF d n m])
  have 2: "readConfFile ?l (''port=50000'' @ [newline])
      = readConfFile (match_keys ''port=50000'' ?l) []"
    by (rule t [THEN conjunct1])
  show ?thesis
    unfolding 2 unfolding 1 s readConfFile_eof by simp
qed

text \<open>
  C4 as stated fails: with the keys \<open>a\<close> and \<open>a=b\<close>, the line \<open>a=b=c\<close> sets both
  entries, not the first one alone.
\<close>

theorem readConfFile_sets_every_match:
  "readConfFile
     [\<lparr>key = ''a'', type = STR', val = None\<rparr>, \<lparr>key = ''a=b'', type = STR', val = None\<rparr>]
     (''a=b=c'' @ [newline])
   = Inr [\<lparr>key = ''a'', type = STR', val = Some ''b=c''\<rparr>,
          \<lparr>key = ''a=b'', type = STR', val = Some ''c''\<rparr>]
   \<and> readConfFile
     [\<lparr>key = ''a'', type = STR', val = None\<rparr>, \<lparr>key = ''a=b'', type = STR', val = None\<rparr>]
     (''a=b=c'' @ [newline])
   \<noteq> Inr [\<lparr>key = ''a'', type = STR', val = Some ''b=c''\<rparr>,
          \<lparr>key = ''a=b'', type = STR', val = None\<rparr>]"
proof -
  let ?l = "[\<lparr>key = ''a'', type = STR', val = None\<rparr>, \<lparr>key = ''a=b'', type = STR', val = None\<rparr>]"
  have h: "NUL \<notin> set ''a=b=c''" "newline \<notin> set ''a=b=c''" "length ''a=b=c'' \<le> 1022"
    by (simp_all add: NUL_def newline_def)
  have m: "match_keys ''a=b=c'' ?l
    = [\<lparr>key = ''a'', type = STR', val = Some ''b=c''\<rparr>,
          \<lparr>key = ''a=b'', type = STR', val = Some ''c''\<rparr>]"
    by (simp add: match_keys_map key_matches_def set_from_line_def setConfVal_def
        del: match_keys.simps)
  have step: "readConfFile ?l (''a=b=c'' @ [newline]) = readConfFile (match_keys ''a=b=c'' ?l) []"
    by (rule readConfFile_step [OF h])
  show ?thesis
    unfolding step m readConfFile_eof by simp
qed

text \<open>
  C5. The last byte of what \<open>fgets\<close> returns is dropped whether it is a newline or
  not: a last line without a newline loses the last byte of its payload.
\<close>

theorem readConfFile_drops_last_byte:
  "readConfFile [\<lparr>key = ''port'', type = INT', val = None\<rparr>] ''port=50000''
     = Inr [\<lparr>key = ''port'', type = INT', val = Some ''5000''\<rparr>]"
proof -
  have r: "read_line 1023 ''port=50000'' = (''port=50000'', [])"
    by code_simp
  have f: "fgets 1024 ''port=50000'' = Some (''port=50000'', [])"
    by (simp add: fgets_def r)
  have c: "c_string ''port=50000'' = ''port=50000''"
    by (rule c_string_id) (simp add: NUL_def)
  have m: "match_keys ''port=5000'' [\<lparr>key = ''port'', type = INT', val = None\<rparr>]
      = [\<lparr>key = ''port'', type = INT', val = Some ''5000''\<rparr>]"
    by (simp add: match_keys_map key_matches_def set_from_line_def setConfVal_def is_digit_def
        del: match_keys.simps)
  show ?thesis
    by (subst readConfFile.simps) (simp add: f c m readConfFile_eof del: match_keys.simps)
qed

lemma freeConfFile_key: "map key (freeConfFile l) = map key l"
  by (induction l) simp_all

lemma freeConfFile_type: "map type (freeConfFile l) = map type l"
  by (induction l) simp_all

text \<open>
  Where they return, \<open>setConfVal\<close> (on an input in storage of its own), \<open>freeConfFile\<close>
  and \<open>readConfFile\<close> leave the key and the type of every entry as they were (and the
  number of entries); \<open>readConfFile\<close> returns on every stream without a NUL byte.
\<close>

lemma config_list_frame:
  "key (snd (setConfVal e v)) = key e \<and> type (snd (setConfVal e v)) = type e
   \<and> map key (freeConfFile l) = map key l \<and> map type (freeConfFile l) = map type l
   \<and> (\<forall>l'. readConfFile l cnf = Inr l' \<longrightarrow> map key l' = map key l \<and> map type l' = map type l)
   \<and> (NUL \<notin> set cnf \<longrightarrow> (\<exists>l'. readConfFile l cnf = Inr l'))"
  using readConfFile_frame readConfFile_returns
  by (simp add: setConfVal_key setConfVal_type freeConfFile_key freeConfFile_type)

lemma readConfFile_NUL_first: "readConfFile l (NUL # cs) = Inl OutOfBounds"
proof -
  obtain bytes rest where r: "read_line 1023 (NUL # cs) = (NUL # bytes, rest)"
    by (cases "read_line 1022 cs") (simp add: numeral_eq_Suc NUL_def newline_def)
  then have "fgets 1024 (NUL # cs) = Some (NUL # bytes, rest)"
    by (simp add: fgets_def)
  then show ?thesis
    by (subst readConfFile.simps) (simp add: c_string_def)
qed

text \<open>
  C10. A line that starts with a NUL byte is an empty string in \<open>buf\<close>, and
  \<open>buf[strlen(buf) - 1] = '\0'\<close> writes outside the array: \<open>readConfFile\<close> writes to
  memory that is no value of an entry.
\<close>

theorem readConfFile_writes_before_buf:
  "readConfFile [\<lparr>key = ''port'', type = INT', val = None\<rparr>] (NUL # ''port=50000'' @ [newline])
     = Inl OutOfBounds"
  by (rule readConfFile_NUL_first)

section \<open>Prefix substitution and abbreviation\<close>

lemma bind_simps [simp]: "bind (Inr x) f = f x" "bind (Inl e) f = Inl e"
  by (simp_all add: bind_def)

lemma memcpy_append:
  "length xs = off \<Longrightarrow> n \<le> length ys \<Longrightarrow> n \<le> length src \<Longrightarrow>
     memcpy (xs @ ys) off src n = Inr (xs @ map Some (take n src) @ drop n ys)"
  by (simp add: memcpy_def)

lemma memcpy_fault:
  "length dst < off + n \<Longrightarrow> memcpy dst off src n = Inl OutOfBounds"
  by (simp add: memcpy_def)

lemma buffer_string_of:
  "NUL \<notin> set s \<Longrightarrow> buffer_string (map Some s @ Some NUL # rest) = Inr s"
  by (induction s) auto

lemma find_map_Suc: "List.find P (map Suc xs) = map_option Suc (List.find (\<lambda>p. P (Suc p)) xs)"
  by (induction xs) auto

lemma strstr_first_occurrence: "strstr s tok = first_occurrence tok s"
proof (induction s)
  case Nil
  then show ?case by (simp add: first_occurrence_def occurs_at_def)
next
  case (Cons c cs)
  have upt: "[0..<length (c # cs) + 1] = 0 # map Suc [0..<length cs + 1]"
    by (simp add: upt_conv_Cons map_Suc_upt del: upt_Suc)
  have occ: "occurs_at tok (c # cs) (Suc p) = occurs_at tok cs p" for p
    by (simp add: occurs_at_def)
  have occ0: "occurs_at tok (c # cs) 0 = prefix tok (c # cs)"
    by (simp add: occurs_at_def)
  show ?case
    unfolding first_occurrence_def upt
    by (simp add: find_map_Suc occ occ0 Cons.IH [unfolded first_occurrence_def] del: upt_Suc)
qed

lemma first_occurrence_Some:
  "first_occurrence tok s = Some p \<Longrightarrow> p + length tok \<le> length s \<and> take (length tok) (drop p s) = tok"
proof -
  assume "first_occurrence tok s = Some p"
  then have "occurs_at tok s p"
    by (auto simp: first_occurrence_def find_Some_iff)
  then obtain r where "p \<le> length s" "drop p s = tok @ r"
    by (auto simp: occurs_at_def prefix_def)
  then show ?thesis
    by (metis append_eq_conv_conj le_add_diff_inverse length_append length_drop le_add1 add_le_cancel_left)
qed


lemma replacePrefix_absent:
  assumes "NUL \<notin> set s" "first_occurrence ''${prefix}'' s = None"
  shows "replacePrefix (Some s) prefix' =
     (if length s < 1024 then Inr (Some s) else Inl OutOfBounds)"
proof (cases "length s < 1024")
  case True
  have "memcpy ([] @ replicate 1024 None) 0 (s @ [NUL]) (length s + 1)
      = Inr ([] @ map Some (take (length s + 1) (s @ [NUL])) @ drop (length s + 1) (replicate 1024 None))"
    using True by (intro memcpy_append) simp_all
  then have "memcpy (replicate 1024 None) 0 (s @ [NUL]) (length s + 1)
      = Inr (map Some s @ Some NUL # replicate (1023 - length s) None)"
    by simp
  then show ?thesis
    using assms True
    by (simp add: replacePrefix_def strstr_first_occurrence buffer_string_of)
next
  case False
  then have "memcpy (replicate 1024 None) 0 (s @ [NUL]) (length s + 1) = Inl OutOfBounds"
    by (intro memcpy_fault) simp
  then show ?thesis
    using assms False by (simp add: replacePrefix_def strstr_first_occurrence)
qed

lemma replacePrefix_present:
  assumes "NUL \<notin> set s" "NUL \<notin> set prefix'" "first_occurrence ''${prefix}'' s = Some p"
  shows "replacePrefix (Some s) prefix' =
     (if length s - 9 + length prefix' < 1024
      then Inr (Some (take p s @ prefix' @ drop (p + 9) s)) else Inl OutOfBounds)"
proof -
  define a b where "a = take p s" and "b = drop (p + 9) s"
  have p9: "p + 9 \<le> length s"
    using first_occurrence_Some [OF assms(3)] by simp
  have la: "length a = p" and lb: "length b = length s - 9 - p"
    using p9 by (simp_all add: a_def b_def)
  have src: "drop (p + 9) (s @ [NUL]) = b @ [NUL]"
    using p9 by (simp add: b_def)
  have nul: "NUL \<notin> set (a @ prefix' @ b)"
    using assms(1,2) by (auto simp: a_def b_def dest: in_set_takeD in_set_dropD)
  let ?buf = "replicate 1024 None :: buffer"
  let ?copy = "bind (memcpy ?buf 0 s p) (\<lambda>buf.
            bind (memcpy buf p prefix' (length prefix')) (\<lambda>buf.
              memcpy buf (p + length prefix') (drop (p + 9) (s @ [NUL])) (length s - 9 - p + 1)))"
  have rp: "replacePrefix (Some s) prefix'
      = bind ?copy (\<lambda>buf. bind (buffer_string buf) (\<lambda>r. Inr (Some r)))"
    by (simp only: replacePrefix_def Let_def strstr_first_occurrence assms(3) option.case)
  show ?thesis
  proof (cases "length s - 9 + length prefix' < 1024")
    case True
    then have fit: "p + length prefix' + length b + 1 \<le> 1024"
      using p9 lb by simp
    have 1: "memcpy ?buf 0 s p = Inr (map Some a @ replicate (1024 - p) None)"
      using memcpy_append [of "[]" 0 p ?buf s] fit p9 by (simp add: a_def)
    have 2: "memcpy (map Some a @ replicate (1024 - p) None) p prefix' (length prefix')
        = Inr (map Some a @ map Some prefix' @ replicate (1024 - p - length prefix') None)"
      using memcpy_append [of "map Some a" p "length prefix'" "replicate (1024 - p) None" prefix']
        fit la by simp
    have 3: "memcpy (map Some a @ map Some prefix' @ replicate (1024 - p - length prefix') None)
          (p + length prefix') (b @ [NUL]) (length s - 9 - p + 1)
        = Inr (map Some (a @ prefix' @ b) @ Some NUL
             # replicate (1024 - p - length prefix' - length b - 1) None)"
      using memcpy_append [of "map Some a @ map Some prefix'" "p + length prefix'"
          "length b + 1" "replicate (1024 - p - length prefix') None" "b @ [NUL]"]
        fit la lb by simp
    have "?copy = Inr (map Some (a @ prefix' @ b) @ Some NUL
             # replicate (1024 - p - length prefix' - length b - 1) None)"
      by (simp only: 1 bind_simps 2 src 3)
    then have "replacePrefix (Some s) prefix' = Inr (Some (a @ prefix' @ b))"
      unfolding rp by (simp only: bind_simps buffer_string_of [OF nul])
    then show ?thesis
      using True by (simp add: a_def b_def)
  next
    case False
    then have nofit: "1024 < p + length prefix' + length b + 1"
      using p9 lb by simp
    have "?copy = Inl OutOfBounds"
    proof (cases "p \<le> 1024")
      case p: True
      then have 1: "memcpy ?buf 0 s p = Inr (map Some a @ replicate (1024 - p) None)"
        using memcpy_append [of "[]" 0 p ?buf s] p9 by (simp add: a_def)
      show ?thesis
      proof (cases "p + length prefix' \<le> 1024")
        case pp: True
        then have 2: "memcpy (map Some a @ replicate (1024 - p) None) p prefix' (length prefix')
            = Inr (map Some a @ map Some prefix' @ replicate (1024 - p - length prefix') None)"
          using memcpy_append [of "map Some a" p "length prefix'" "replicate (1024 - p) None" prefix']
            la by simp
        have 3: "memcpy (map Some a @ map Some prefix' @ replicate (1024 - p - length prefix') None)
          (p + length prefix') (b @ [NUL]) (length s - 9 - p + 1) = Inl OutOfBounds"
          using nofit pp p la lb by (intro memcpy_fault) simp
        show ?thesis
          by (simp only: 1 bind_simps 2 src 3)
      next
        case False
        then have 2: "memcpy (map Some a @ replicate (1024 - p) None) p prefix' (length prefix')
            = Inl OutOfBounds"
          using p la by (intro memcpy_fault) simp
        show ?thesis
          by (simp only: 1 bind_simps 2)
      qed
    next
      case False
      then have 1: "memcpy ?buf 0 s p = Inl OutOfBounds"
        by (intro memcpy_fault) simp
      show ?thesis
        by (simp only: 1 bind_simps)
    qed
    then have "replacePrefix (Some s) prefix' = Inl OutOfBounds"
      unfolding rp by (simp only: bind_simps)
    then show ?thesis
      using False by simp
  qed
qed

text \<open>
  C8, within the working buffer. \<open>replacePrefix(NULL, prefix)\<close> is \<open>NULL\<close>. For strings
  \<open>s\<close> and \<open>prefix\<close>: when the token does not occur in \<open>s\<close> and \<open>s\<close> is shorter than 1024
  bytes, the result is a copy of \<open>s\<close>; when the token occurs first at offset \<open>p\<close> and
  the result is shorter than 1024 bytes, the result is \<open>s\<close> up to \<open>p\<close>, then \<open>prefix\<close>,
  then \<open>s\<close> after the token. A result of 1024 bytes or more is written past the end of
  the buffer.
\<close>

theorem replacePrefix_first_occurrence:
  assumes "NUL \<notin> set s" "NUL \<notin> set prefix'"
  shows "replacePrefix None prefix' = Inr None
     \<and> (first_occurrence ''${prefix}'' s = None \<and> length s < 1024 \<longrightarrow>
          replacePrefix (Some s) prefix' = Inr (Some s))
     \<and> (\<forall>p. first_occurrence ''${prefix}'' s = Some p \<and> length s - 9 + length prefix' < 1024 \<longrightarrow>
          replacePrefix (Some s) prefix' = Inr (Some (take p s @ prefix' @ drop (p + 9) s)))
     \<and> (first_occurrence ''${prefix}'' s = None \<and> 1024 \<le> length s \<longrightarrow>
          replacePrefix (Some s) prefix' = Inl OutOfBounds)
     \<and> (first_occurrence ''${prefix}'' s \<noteq> None \<and> 1024 \<le> length s - 9 + length prefix' \<longrightarrow>
          replacePrefix (Some s) prefix' = Inl OutOfBounds)"
  using replacePrefix_absent [OF assms(1)] replacePrefix_present [OF assms]
  by (auto simp: replacePrefix_def)


theorem replacePrefix_first_occurrence_witness:
  "replacePrefix (Some ''lib=${prefix}/lib'') ''/opt/mdb'' = Inr (Some ''lib=/opt/mdb/lib'')
   \<and> replacePrefix (Some ''lib=/lib'') ''/opt/mdb'' = Inr (Some ''lib=/lib'')"
proof
  have n: "NUL \<notin> set ''lib=${prefix}/lib''" "NUL \<notin> set ''/opt/mdb''" "NUL \<notin> set ''lib=/lib''"
    by (simp_all add: NUL_def)
  have f: "first_occurrence ''${prefix}'' ''lib=${prefix}/lib'' = Some 4"
    by code_simp
  have g: "first_occurrence ''${prefix}'' ''lib=/lib'' = None"
    by code_simp
  show "replacePrefix (Some ''lib=${prefix}/lib'') ''/opt/mdb'' = Inr (Some ''lib=/opt/mdb/lib'')"
    using replacePrefix_first_occurrence [OF n(1,2)] f by simp
  show "replacePrefix (Some ''lib=/lib'') ''/opt/mdb'' = Inr (Some ''lib=/lib'')"
    using replacePrefix_first_occurrence [OF n(3,2)] g by simp
qed

lemma first_occurrence_None:
  "tok \<noteq> [] \<Longrightarrow> hd tok \<notin> set s \<Longrightarrow> first_occurrence tok s = None"
proof -
  assume tok: "tok \<noteq> []" and hd: "hd tok \<notin> set s"
  have "\<not> occurs_at tok s p" for p
  proof
    assume "occurs_at tok s p"
    then obtain r where "drop p s = tok @ r"
      by (auto simp: occurs_at_def prefix_def)
    then have "hd tok \<in> set (drop p s)"
      using tok by (cases tok) auto
    then show False
      using hd by (auto dest: in_set_dropD)
  qed
  then show ?thesis
    by (simp add: first_occurrence_def find_None_iff)
qed

text \<open>
  C8 as stated fails for a template of 1024 bytes: the copy leaves the buffer.
\<close>

theorem replacePrefix_overflow:
  "replacePrefix (Some (replicate 1024 CHR ''a'')) ''/opt/mdb'' = Inl OutOfBounds"
proof -
  have "NUL \<notin> set (replicate 1024 CHR ''a'')"
    by (simp add: NUL_def)
  moreover have "first_occurrence ''${prefix}'' (replicate 1024 CHR ''a'') = None"
    by (rule first_occurrence_None) simp_all
  ultimately show ?thesis
    by (simp add: replacePrefix_absent)
qed

lemma size_sub_le: "b \<le> a \<Longrightarrow> size_sub a b = a - b"
  by (simp add: size_sub_def)

lemma abbreviateString_short:
  assumes "length inp \<le> width" "width + 1 \<le> length ret"
  shows "abbreviateString ret inp width = Inr (map Some inp @ Some NUL # drop (length inp + 1) ret)"
proof -
  have "memcpy ([] @ ret) 0 (inp @ [NUL]) (length inp + 1)
      = Inr ([] @ map Some (take (length inp + 1) (inp @ [NUL])) @ drop (length inp + 1) ret)"
    using assms by (intro memcpy_append) simp_all
  then show ?thesis
    using assms by (simp add: abbreviateString_def)
qed

lemma abbreviateString_long:
  assumes "width < length inp" "6 \<le> width" "width + 1 \<le> length ret"
  shows "abbreviateString ret inp width =
     Inr (map Some (take (width div 2 - 3) inp) @ [ret ! (width div 2 - 3)] @ map Some ''...''
          @ map Some (drop (length inp - (width - width div 2 - 1)) inp) @ [Some NUL]
          @ drop (width + 1) ret)"
proof -
  define h k len where "h = width div 2" and "k = width - width div 2 - 1" and "len = length inp"
  have h3: "3 \<le> h" and hw: "h + k + 1 = width" and k2: "2 \<le> k" and kl: "k < len"
    and wl: "width < len" and wr: "width + 1 \<le> length ret"
    using assms by (simp_all add: h_def k_def len_def)
  define pre gap suf where "pre = take (h - 3) inp" and "gap = ret ! (h - 3)"
    and "suf = drop (len - k) inp"
  have lpre: "length pre = h - 3" and lsuf: "length suf = k"
    using h3 hw kl wl by (simp_all add: pre_def suf_def len_def)
  have n1: "size_sub h 3 = h - 3" and n2: "size_sub h 2 = h - 2"
    using h3 by (simp_all add: size_sub_le)
  have off: "size_sub len (size_sub (size_sub width (h - 2)) 3) = len - k"
    using h3 hw kl by (simp add: size_sub_le k_def h_def)
  have cnt: "size_sub len (len - k) + 1 = k + 1"
    using kl by (simp add: size_sub_le)
  have src: "drop (len - k) (inp @ [NUL]) = suf @ [NUL]"
    using kl by (simp add: suf_def len_def)
  have ret_split: "drop (h - 3) ret = gap # drop (h - 2) ret"
  proof -
    have "h - 3 < length ret" "Suc (h - 3) = h - 2"
      using h3 hw wr by simp_all
    then show ?thesis
      by (metis Cons_nth_drop_Suc gap_def)
  qed
  have m1: "memcpy ret 0 (inp @ [NUL]) (h - 3) = Inr (map Some pre @ gap # drop (h - 2) ret)"
    using memcpy_append [of "[]" 0 "h - 3" ret "inp @ [NUL]"] h3 hw wl wr
    by (simp add: pre_def ret_split len_def)
  have m2: "memcpy (map Some pre @ gap # drop (h - 2) ret) (h - 2) ''...'' 3
      = Inr (map Some pre @ gap # map Some ''...'' @ drop (h + 1) ret)"
    using memcpy_append [of "map Some pre @ [gap]" "h - 2" 3 "drop (h - 2) ret" "''...''"]
      h3 hw wr lpre by simp
  have m3: "memcpy (map Some pre @ gap # map Some ''...'' @ drop (h + 1) ret) (h + 1)
        (suf @ [NUL]) (k + 1)
      = Inr (map Some pre @ gap # map Some ''...'' @ map Some suf @ Some NUL # drop (width + 1) ret)"
    using memcpy_append [of "map Some pre @ gap # map Some ''...''" "h + 1" "k + 1"
        "drop (h + 1) ret" "suf @ [NUL]"]
      h3 hw wr lpre lsuf by (simp add: add.commute add.left_commute)
  have "abbreviateString ret inp width
      = bind (memcpy ret 0 (inp @ [NUL]) (size_sub h 3)) (\<lambda>ret.
        bind (memcpy ret (size_sub h 2) ''...'' 3) (\<lambda>ret.
        memcpy ret (h + 1)
          (drop (size_sub len (size_sub (size_sub width (size_sub h 2)) 3)) (inp @ [NUL]))
          (size_sub len (size_sub len (size_sub (size_sub width (size_sub h 2)) 3)) + 1)))"
    using wl by (simp only: abbreviateString_def Let_def h_def len_def if_True)
  also have "\<dots> = Inr (map Some pre @ gap # map Some ''...'' @ map Some suf @ Some NUL
      # drop (width + 1) ret)"
    by (simp only: n1 n2 off cnt src m1 m2 m3 bind_simps)
  finally show ?thesis
    by (simp add: pre_def gap_def suf_def h_def k_def len_def)
qed


lemma layout:
  assumes "r = A @ [g] @ D @ S @ [z] @ R" "length A = a" "length D = 3" "length S = k"
  shows "take a r = A" "take 3 (drop (a + 1) r) = D" "take k (drop (a + 4) r) = S"
    "r ! (a + 4 + k) = z" "drop (a + k + 5) r = R"
proof -
  show "take a r = A"
    using assms by simp
  have "r = (A @ [g]) @ D @ (S @ [z] @ R)" "length (A @ [g]) = a + 1"
    using assms by simp_all
  then show "take 3 (drop (a + 1) r) = D"
    using assms(3) by (metis append_eq_conv_conj)
  have "r = (A @ [g] @ D) @ S @ ([z] @ R)" "length (A @ [g] @ D) = a + 4"
    using assms by simp_all
  then show "take k (drop (a + 4) r) = S"
    using assms(4) by (metis append_eq_conv_conj)
  have "r = (A @ [g] @ D @ S) @ z # R" "length (A @ [g] @ D @ S) = a + 4 + k"
    using assms by simp_all
  then show "r ! (a + 4 + k) = z"
    by (metis nth_append_length)
  have "r = (A @ [g] @ D @ S @ [z]) @ R" "length (A @ [g] @ D @ S @ [z]) = a + k + 5"
    using assms by simp_all
  then show "drop (a + k + 5) r = R"
    by (metis append_eq_conv_conj)
qed

text \<open>
  C6, as the code has it. Into an array of at least \<open>width + 1\<close> bytes: a string of at
  most \<open>width\<close> bytes is copied as it is, terminator included. A longer string, for a
  width of at least 6, gives the first \<open>width / 2 - 3\<close> bytes of the string at offset
  0, the marker \<open>...\<close> at offset \<open>width / 2 - 2\<close>, the last \<open>width - width / 2 - 1\<close> bytes
  of the string at offset \<open>width / 2 + 1\<close> and the terminator at offset \<open>width\<close>; the
  bytes of the array after the terminator are left as they were.
\<close>

theorem abbreviateString_layout:
  assumes "width + 1 \<le> length ret"
  shows "(length inp \<le> width \<longrightarrow>
            abbreviateString ret inp width
              = Inr (map Some inp @ Some NUL # drop (length inp + 1) ret))
     \<and> (length inp \<le> width \<and> NUL \<notin> set inp \<longrightarrow>
            bind (abbreviateString ret inp width) buffer_string = Inr inp)
     \<and> (width < length inp \<and> 6 \<le> width \<longrightarrow>
          (\<exists>r. abbreviateString ret inp width = Inr r \<and> length r = length ret
             \<and> take (width div 2 - 3) r = map Some (take (width div 2 - 3) inp)
             \<and> take 3 (drop (width div 2 - 2) r) = map Some ''...''
             \<and> take (width - width div 2 - 1) (drop (width div 2 + 1) r)
                 = map Some (drop (length inp - (width - width div 2 - 1)) inp)
             \<and> r ! width = Some NUL
             \<and> drop (width + 1) r = drop (width + 1) ret))"
proof (intro conjI impI)
  assume "length inp \<le> width"
  then show "abbreviateString ret inp width
      = Inr (map Some inp @ Some NUL # drop (length inp + 1) ret)"
    using assms by (rule abbreviateString_short)
next
  assume "length inp \<le> width \<and> NUL \<notin> set inp"
  then show "bind (abbreviateString ret inp width) buffer_string = Inr inp"
    using assms by (simp add: abbreviateString_short buffer_string_of)
next
  assume a: "width < length inp \<and> 6 \<le> width"
  define h k where "h = width div 2" and "k = width - width div 2 - 1"
  define r where "r = map Some (take (h - 3) inp) @ [ret ! (h - 3)] @ map Some ''...''
          @ map Some (drop (length inp - k) inp) @ [Some NUL] @ drop (width + 1) ret"
  from a have a1: "width < length inp" and a2: "6 \<le> width"
    by simp_all
  have h3: "3 \<le> h" and hw: "h + k + 1 = width" and kl: "k < length inp"
    using a1 a2 by (simp_all add: h_def k_def)
  have lens: "length (map Some (take (h - 3) inp)) = h - 3" "length (map Some ''...'') = 3"
    "length (map Some (drop (length inp - k) inp)) = k"
    using h3 hw kl a1 a2 by simp_all
  have idx: "h - 3 + 1 = h - 2" "h - 3 + 4 + k = width" "h - 3 + 4 = h + 1"
    "h - 3 + k + 5 = width + 1"
    using h3 hw by simp_all
  note l = layout [OF r_def lens, unfolded h_def k_def]
  have i2: "width div 2 - 3 + 1 = width div 2 - 2"
    and i3: "width div 2 - 3 + 4 = width div 2 + 1"
    and i4: "width div 2 - 3 + 4 + (width - width div 2 - 1) = width"
    and i5: "width div 2 - 3 + (width - width div 2 - 1) + 5 = width + 1"
    using a2 by simp_all
  have l1: "take (width div 2 - 3) r = map Some (take (width div 2 - 3) inp)"
    by (rule l(1))
  have l2: "take 3 (drop (width div 2 - 2) r) = map Some ''...''"
    using l(2) unfolding i2 .
  have l3: "take (width - width div 2 - 1) (drop (width div 2 + 1) r)
      = map Some (drop (length inp - (width - width div 2 - 1)) inp)"
    using l(3) unfolding i3 .
  have l4: "r ! width = Some NUL"
    using l(4) unfolding i4 .
  have l5: "drop (width + 1) r = drop (width + 1) ret"
    using l(5) unfolding i5 .
  have res: "abbreviateString ret inp width = Inr r"
    using a1 a2 assms by (simp add: abbreviateString_long r_def h_def k_def)
  have len: "length r = length ret"
    using h3 hw kl a1 a2 assms by (simp add: r_def)
  show "\<exists>r. abbreviateString ret inp width = Inr r \<and> length r = length ret
             \<and> take (width div 2 - 3) r = map Some (take (width div 2 - 3) inp)
             \<and> take 3 (drop (width div 2 - 2) r) = map Some ''...''
             \<and> take (width - width div 2 - 1) (drop (width div 2 + 1) r)
                 = map Some (drop (length inp - (width - width div 2 - 1)) inp)
             \<and> r ! width = Some NUL
             \<and> drop (width + 1) r = drop (width + 1) ret"
    by (intro exI [of _ r] conjI) (rule res len l1 l2 l3 l4 l5)+
qed


theorem abbreviateString_layout_witness:
  "abbreviateString (replicate 11 None) ''abcdefghij'' 10
     = Inr (map Some ''abcdefghij'' @ [Some NUL])
   \<and> (\<exists>r. abbreviateString (replicate 9 None) ''abcdefghij'' 8 = Inr r
        \<and> take 3 (drop 2 r) = map Some ''...'' \<and> take 3 (drop 5 r) = map Some ''hij''
        \<and> r ! 8 = Some NUL)"
proof
  show "abbreviateString (replicate 11 None) ''abcdefghij'' 10
     = Inr (map Some ''abcdefghij'' @ [Some NUL])"
    using abbreviateString_layout [of 10 "replicate 11 None" "''abcdefghij''"] by simp
  show "\<exists>r. abbreviateString (replicate 9 None) ''abcdefghij'' 8 = Inr r
        \<and> take 3 (drop 2 r) = map Some ''...'' \<and> take 3 (drop 5 r) = map Some ''hij''
        \<and> r ! 8 = Some NUL"
    using abbreviateString_layout [of 8 "replicate 9 None" "''abcdefghij''"] by auto
qed

text \<open>
  C6 as stated fails: for \<open>abcdefghij\<close> and width 8 the marker is at offset 2, not
  at offset 1, and the byte at offset 1 is never written, so that the result read as
  a string is not defined.
\<close>

theorem abbreviateString_gap:
  "abbreviateString (replicate 9 None) ''abcdefghij'' 8
     = Inr [Some CHR ''a'', None, Some CHR ''.'', Some CHR ''.'', Some CHR ''.'',
            Some CHR ''h'', Some CHR ''i'', Some CHR ''j'', Some NUL]
   \<and> bind (abbreviateString (replicate 9 None) ''abcdefghij'' 8) buffer_string
     = Inl Indeterminate"
proof -
  have "abbreviateString (replicate 9 None) ''abcdefghij'' 8
     = Inr [Some CHR ''a'', None, Some CHR ''.'', Some CHR ''.'', Some CHR ''.'',
            Some CHR ''h'', Some CHR ''i'', Some CHR ''j'', Some NUL]"
    by (simp add: abbreviateString_long)
  then show ?thesis
    by (simp add: NUL_def)
qed

section \<open>The duration reads back\<close>

lemma is_digit_digit_char: "d < 10 \<Longrightarrow> is_digit (digit_char d)"
  by (simp add: is_digit_def digit_char_def)

lemma digit_value_digit_char: "d < 10 \<Longrightarrow> digit_value (digit_char d) = d"
  by (simp add: digit_value_def digit_char_def)

lemma show_nat_digits: "list_all is_digit (show_nat n) \<and> show_nat n \<noteq> []"
proof (induction n rule: show_nat.induct)
  case (1 n)
  show ?case
  proof (cases "n < 10")
    case True
    then show ?thesis
      by (subst (1 2) show_nat.simps) (simp add: is_digit_digit_char)
  next
    case False
    then show ?thesis
      using 1 by (subst (1 2) show_nat.simps) (simp add: is_digit_digit_char)
  qed
qed

lemma show_nat_value: "foldl (\<lambda>a c. 10 * a + digit_value c) 0 (show_nat n) = n"
proof (induction n rule: show_nat.induct)
  case (1 n)
  show ?case
  proof (cases "n < 10")
    case True
    then show ?thesis
      by (subst show_nat.simps) (simp add: digit_value_digit_char)
  next
    case False
    then show ?thesis
      using 1 by (subst show_nat.simps) (simp add: digit_value_digit_char)
  qed
qed

lemma parse_nat_show_nat: "parse_nat (show_nat n) = Some n"
  by (simp add: parse_nat_def show_nat_digits show_nat_value)

lemma not_digit: "\<not> is_digit CHR ''-''" "\<not> is_digit CHR '' ''"
  by (simp_all add: is_digit_def)

lemma parse_int_show_int: "0 \<le> i \<Longrightarrow> parse_int (show_int i) = Some i"
proof -
  assume i: "0 \<le> i"
  obtain c cs where s: "show_nat (nat i) = c # cs"
    using show_nat_digits [of "nat i"] by (cases "show_nat (nat i)") auto
  then have "is_digit c"
    using show_nat_digits [of "nat i"] by simp
  then have "c \<noteq> CHR ''-''"
    using not_digit by auto
  then show ?thesis
    using i s parse_nat_show_nat [of "nat i"] by (simp add: parse_int_def show_int_def)
qed

lemma no_space_show_int: "0 \<le> i \<Longrightarrow> CHR '' '' \<notin> set (show_int i)"
  using show_nat_digits [of "nat i"] not_digit(2)
  by (auto simp: show_int_def list_all_iff)

lemma unit_weight_not_space: "unit_weight u = Some w \<Longrightarrow> u \<noteq> CHR '' ''"
  by (auto simp: unit_weight_def)

lemma parse_component_show:
  "0 \<le> i \<Longrightarrow> unit_weight u = Some w \<Longrightarrow> parse_component (show_int i @ [u]) = Some (i * w)"
  by (simp add: parse_component_def parse_int_show_int)

lemma no_space_component:
  "0 \<le> i \<Longrightarrow> unit_weight u = Some w \<Longrightarrow> CHR '' '' \<notin> set (show_int i @ [u])"
  using no_space_show_int unit_weight_not_space by auto

lemma split_on_whole: "c \<notin> set a \<Longrightarrow> split_on c a = [a]"
  by (induction a) auto

lemma split_on_first: "c \<notin> set a \<Longrightarrow> split_on c (a @ c # rest) = a # split_on c rest"
  by (induction a) auto

lemma split_on_join:
  "\<forall>x\<in>set comps. CHR '' '' \<notin> set x \<Longrightarrow> CHR '' '' \<notin> set a \<Longrightarrow>
     split_on CHR '' '' (join_trailing comps @ a) = comps @ [a]"
proof (induction comps)
  case Nil
  then show ?case by (simp add: join_trailing_def split_on_whole)
next
  case (Cons x comps)
  then have "split_on CHR '' '' (join_trailing comps @ a) = comps @ [a]"
    by simp
  moreover have "join_trailing (x # comps) @ a = x @ CHR '' '' # (join_trailing comps @ a)"
    by (simp add: join_trailing_def)
  ultimately show ?case
    using Cons.prems(1) by (simp add: split_on_first)
qed

lemma join_trailing_snoc: "join_trailing (xs @ [x]) = join_trailing xs @ x @ '' ''"
  by (simp add: join_trailing_def)

lemma butlast_join_trailing:
  "comps \<noteq> [] \<Longrightarrow> butlast (join_trailing comps) = join_trailing (butlast comps) @ last comps"
proof -
  assume "comps \<noteq> []"
  then have "comps = butlast comps @ [last comps]"
    by simp
  then have "join_trailing comps = join_trailing (butlast comps) @ last comps @ '' ''"
    using join_trailing_snoc by metis
  then show ?thesis
    by (simp add: butlast_append)
qed

lemma join_trailing_empty: "join_trailing comps = [] \<longleftrightarrow> comps = []"
  by (cases comps) (simp_all add: join_trailing_def)

lemma sum_components_snoc:
  "sum_components xs = Some a \<Longrightarrow> parse_component c = Some b \<Longrightarrow>
     sum_components (xs @ [c]) = Some (a + b)"
  by (induction xs arbitrary: a) (auto split: option.splits)

lemma int_cast_id:
  assumes "0 \<le> x" "x < 2 ^ 31"
  shows "int_cast x = x"
proof -
  have "signed_take_bit 31 x = x"
    using assms by (intro signed_take_bit_int_eq_self) simp_all
  then show ?thesis
    by (simp add: int_cast_def sint_sbintrunc')
qed

lemma emit_unit_step:
  assumes "\<forall>c\<in>set comps. CHR '' '' \<notin> set c" "sum_components comps = Some (t0 - t)"
    and "0 \<le> t" "2 \<le> l" "unit_weight u = Some p" "0 < p" "t div p < 2 ^ 31"
  shows "\<exists>comps' t' l'. emit_unit p u (join_trailing comps, t, l) = Inr (join_trailing comps', t', l')
      \<and> (\<forall>c\<in>set comps'. CHR '' '' \<notin> set c) \<and> sum_components comps' = Some (t0 - t')
      \<and> 0 \<le> t' \<and> t' \<le> p \<and> l - 1 \<le> l'"
proof (cases "t > p")
  case False
  then have "emit_unit p u (join_trailing comps, t, l) = Inr (join_trailing comps, t, l)"
    by (simp add: emit_unit_def)
  then show ?thesis
    using assms False by (intro exI [of _ comps] exI [of _ t] exI [of _ l]) simp
next
  case True
  define n where "n = t div p"
  define c where "c = show_int n @ [u]"
  have n: "0 \<le> n" "n < 2 ^ 31"
    using assms(3,6,7) by (simp_all add: n_def pos_imp_zdiv_nonneg_iff)
  have cast: "int_cast (t div p) = n"
    using n by (simp add: int_cast_id n_def)
  have rem: "t - n * p = t mod p"
    by (simp add: n_def minus_div_mult_eq_mod)
  have e: "emit_unit p u (join_trailing comps, t, l)
      = Inr (join_trailing (comps @ [c]), t mod p, l - 1)"
    using True assms(4) by (simp add: emit_unit_def Let_def cast c_def join_trailing_snoc rem [unfolded n_def])
  have pc: "parse_component c = Some (n * p)"
    unfolding c_def using n(1) assms(5) by (rule parse_component_show)
  have ns: "CHR '' '' \<notin> set c"
    unfolding c_def using n(1) assms(5) by (rule no_space_component)
  have "t0 - t + n * p = t0 - t mod p"
    using rem by simp
  then have sum: "sum_components (comps @ [c]) = Some (t0 - t mod p)"
    using sum_components_snoc [OF assms(2) pc] by simp
  have "0 \<le> t mod p" "t mod p \<le> p"
    using assms(6) by (simp_all add: less_imp_le)
  then show ?thesis
    using e sum ns assms(1)
    by (intro exI [of _ "comps @ [c]"] exI [of _ "t mod p"] exI [of _ "l - 1"]) simp
qed

lemma final_step:
  assumes "\<forall>c\<in>set comps. CHR '' '' \<notin> set c" "sum_components comps = Some (t0 - t)"
    and "0 \<le> t" "t < 2 ^ 31"
  shows "parse_duration
      (if l - 1 = 0 \<or> \<not> (join_trailing comps \<noteq> [] \<and> t = 0)
       then join_trailing comps @ show_int (int_cast t) @ ''s''
       else butlast (join_trailing comps)) = Some t0"
proof (cases "l - 1 = 0 \<or> \<not> (join_trailing comps \<noteq> [] \<and> t = 0)")
  case True
  have w: "unit_weight CHR ''s'' = Some 1"
    by (simp add: unit_weight_def)
  have "split_on CHR '' '' (join_trailing comps @ show_int t @ ''s'') = comps @ [show_int t @ ''s'']"
    using assms(1) no_space_component [OF assms(3) w] by (rule split_on_join)
  moreover have "sum_components (comps @ [show_int t @ ''s'']) = Some (t0 - t + t * 1)"
    using assms(2) parse_component_show [OF assms(3) w] by (rule sum_components_snoc)
  ultimately show ?thesis
    using True assms(3,4) by (simp add: parse_duration_def int_cast_id)
next
  case False
  then have ne: "comps \<noteq> []" and t: "t = 0"
    by (auto simp: join_trailing_empty)
  have "split_on CHR '' '' (join_trailing (butlast comps) @ last comps) = butlast comps @ [last comps]"
    using assms(1) ne by (intro split_on_join) (auto dest: in_set_butlastD)
  then have "split_on CHR '' '' (butlast (join_trailing comps)) = comps"
    using ne by (simp add: butlast_join_trailing)
  then show ?thesis
    using False assms(2) t by (simp add: parse_duration_def)
qed

text \<open>
  C7, within the range of \<open>int\<close>. For every \<open>t\<close> from 0 up to (not including)
  604800 * 2^31, the string that \<open>secondsToString(buf, t, 5)\<close> writes reads back as \<open>t\<close>.
\<close>

theorem secondsToString_roundtrip:
  assumes "0 \<le> t" "t < 604800 * 2 ^ 31"
  shows "parse_duration (secondsToString t 5) = Some t"
proof -
  have w: "unit_weight CHR ''w'' = Some 604800" "unit_weight CHR ''d'' = Some 86400"
    "unit_weight CHR ''h'' = Some 3600" "unit_weight CHR ''m'' = Some 60"
    by (simp_all add: unit_weight_def)
  have d1: "t div 604800 < 2 ^ 31"
    using assms by simp
  obtain c1 t1 l1 where e1: "emit_unit 604800 CHR ''w'' ([], t, 5) = Inr (join_trailing c1, t1, l1)"
    and i1: "\<forall>c\<in>set c1. CHR '' '' \<notin> set c" "sum_components c1 = Some (t - t1)"
      "0 \<le> t1" "t1 \<le> 604800" "4 \<le> l1"
    using emit_unit_step [of "[]" t t 5 "CHR ''w''" 604800, OF _ _ assms(1) _ w(1) _ d1]
    by (auto simp: join_trailing_def)
  have d2: "t1 div 86400 < 2 ^ 31"
    using i1(3,4) by simp
  obtain c2 t2 l2 where e2: "emit_unit 86400 CHR ''d'' (join_trailing c1, t1, l1)
        = Inr (join_trailing c2, t2, l2)"
    and i2: "\<forall>c\<in>set c2. CHR '' '' \<notin> set c" "sum_components c2 = Some (t - t2)"
      "0 \<le> t2" "t2 \<le> 86400" "3 \<le> l2"
    using emit_unit_step [of c1 t t1 l1 "CHR ''d''" 86400, OF i1(1,2,3) _ w(2) _ d2] i1(5)
    by auto
  have d3: "t2 div 3600 < 2 ^ 31"
    using i2(3,4) by simp
  obtain c3 t3 l3 where e3: "emit_unit 3600 CHR ''h'' (join_trailing c2, t2, l2)
        = Inr (join_trailing c3, t3, l3)"
    and i3: "\<forall>c\<in>set c3. CHR '' '' \<notin> set c" "sum_components c3 = Some (t - t3)"
      "0 \<le> t3" "t3 \<le> 3600" "2 \<le> l3"
    using emit_unit_step [of c2 t t2 l2 "CHR ''h''" 3600, OF i2(1,2,3) _ w(3) _ d3] i2(5)
    by auto
  have d4: "t3 div 60 < 2 ^ 31"
    using i3(3,4) by simp
  obtain c4 t4 l4 where e4: "emit_unit 60 CHR ''m'' (join_trailing c3, t3, l3)
        = Inr (join_trailing c4, t4, l4)"
    and i4: "\<forall>c\<in>set c4. CHR '' '' \<notin> set c" "sum_components c4 = Some (t - t4)"
      "0 \<le> t4" "t4 \<le> 60"
    using emit_unit_step [of c3 t t3 l3 "CHR ''m''" 60, OF i3(1,2,3) _ w(4) _ d4] i3(5)
    by auto
  have "t4 < 2 ^ 31"
    using i4(4) by simp
  moreover have "secondsToString t 5 =
      (if l4 - 1 = 0 \<or> \<not> (join_trailing c4 \<noteq> [] \<and> t4 = 0)
       then join_trailing c4 @ show_int (int_cast t4) @ ''s''
       else butlast (join_trailing c4))"
    by (simp only: secondsToString_def e1 e2 e3 e4 sum.case prod.case)
  ultimately show ?thesis
    using final_step [OF i4(1,2,3), of l4] by (simp only:)
qed



theorem secondsToString_roundtrip_witness:
  "secondsToString 90061 5 = ''1d 1h 1m 1s'' \<and> parse_duration ''1d 1h 1m 1s'' = Some 90061"
proof -
  have e: "secondsToString 90061 5 = ''1d 1h 1m 1s''"
    by code_simp
  show ?thesis
    using secondsToString_roundtrip [of 90061] unfolding e by simp
qed

text \<open>
  C7 as stated fails where the number of weeks does not fit an \<open>int\<close>: for
  \<open>t\<close> = 604800 * 2^32 the string is \<open>0w\<close>.
\<close>

theorem secondsToString_int_overflow:
  "secondsToString 2597596220620800 5 = ''0w''
   \<and> parse_duration (secondsToString 2597596220620800 5) = Some 0
   \<and> parse_duration (secondsToString 2597596220620800 5) \<noteq> Some 2597596220620800"
proof -
  have e: "secondsToString 2597596220620800 5 = ''0w''"
    by code_simp
  have p: "parse_duration ''0w'' = Some 0"
    by code_simp
  show ?thesis
    unfolding e p by simp
qed

section \<open>The layout of a salt\<close>

lemma salt_fill_eq: "salt_fill len = 3 * len div 4"
proof -
  have "real len * 0.75 = real (3 * len) / real 4"
    by simp
  then show ?thesis
    unfolding salt_fill_def by (simp only: floor_divide_of_nat_eq nat_int)
qed

lemma salt_min_eq: "salt_min len = 42 * len div 100"
proof -
  have "real len * 0.42 = real (42 * len) / real 100"
    by simp
  then show ?thesis
    unfolding salt_min_def by (simp only: floor_divide_of_nat_eq nat_int)
qed


lemma seedChars_alnum: "k < 62 \<Longrightarrow> is_alnum (seedChars ! k)"
proof -
  have "list_all is_alnum seedChars"
    by code_simp
  moreover have "length seedChars = 62"
    by (simp add: seedChars_def)
  ultimately show "k < 62 \<Longrightarrow> is_alnum (seedChars ! k)"
    by (simp add: list_all_length)
qed

lemma salt_chars_spec:
  "size' \<le> length buf \<Longrightarrow>
     length (fst (salt_chars c size' buf g)) = length buf
     \<and> (\<forall>i. c \<le> i \<and> i < size' \<longrightarrow> (\<exists>ch. fst (salt_chars c size' buf g) ! i = Some ch \<and> is_alnum ch))
     \<and> (\<forall>i. i < c \<or> size' \<le> i \<longrightarrow> fst (salt_chars c size' buf g) ! i = buf ! i)"
proof (induction c size' buf g rule: salt_chars.induct)
  case (1 c size' buf g)
  show ?case
  proof (cases "c < size'")
    case False
    then show ?thesis
      by (subst (1 2 3) salt_chars.simps) auto
  next
    case True
    define x where "x = Some (seedChars ! (fst (rand g) mod 62))"
    define r where "r = fst (salt_chars (c + 1) size' (buf[c := x]) (snd (rand g)))"
    have step: "fst (salt_chars c size' buf g) = r"
      using True by (subst salt_chars.simps) (simp add: r_def x_def)
    have ih: "length r = length buf"
      "\<And>i. c + 1 \<le> i \<and> i < size' \<Longrightarrow> \<exists>ch. r ! i = Some ch \<and> is_alnum ch"
      "\<And>i. i < c + 1 \<or> size' \<le> i \<Longrightarrow> r ! i = buf[c := x] ! i"
      using "1.IH" [OF True] "1.prems" by (auto simp: r_def x_def)
    have xa: "\<exists>ch. x = Some ch \<and> is_alnum ch"
      by (simp add: x_def seedChars_alnum)
    have c: "c < length buf"
      using True "1.prems" by simp
    have "\<exists>ch. r ! i = Some ch \<and> is_alnum ch" if "c \<le> i \<and> i < size'" for i
    proof (cases "i = c")
      case True
      then have "r ! i = x"
        using ih(3) [of c] c by simp
      then show ?thesis
        using xa by simp
    next
      case False
      then show ?thesis
        using that ih(2) [of i] by simp
    qed
    moreover have "r ! i = buf ! i" if "i < c \<or> size' \<le> i" for i
      using that ih(3) [of i] True by auto
    ultimately show ?thesis
      unfolding step using ih(1) by blast
  qed
qed

lemma salt_zeros_spec:
  "len \<le> length buf \<Longrightarrow>
     length (salt_zeros c len buf) = length buf
     \<and> (\<forall>i. c \<le> i \<and> i < len \<longrightarrow> salt_zeros c len buf ! i = Some NUL)
     \<and> (\<forall>i. i < c \<or> len \<le> i \<longrightarrow> salt_zeros c len buf ! i = buf ! i)"
proof (induction c len buf rule: salt_zeros.induct)
  case (1 c len buf)
  show ?case
  proof (cases "c < len")
    case False
    then show ?thesis
      by (subst (1 2 3) salt_zeros.simps) auto
  next
    case True
    define r where "r = salt_zeros (c + 1) len (buf[c := Some NUL])"
    have step: "salt_zeros c len buf = r"
      using True by (subst salt_zeros.simps) (simp add: r_def)
    have ih: "length r = length buf"
      "\<And>i. c + 1 \<le> i \<and> i < len \<Longrightarrow> r ! i = Some NUL"
      "\<And>i. i < c + 1 \<or> len \<le> i \<Longrightarrow> r ! i = buf[c := Some NUL] ! i"
      using "1.IH" [OF True] "1.prems" by (auto simp: r_def)
    have c: "c < length buf"
      using True "1.prems" by simp
    have "r ! i = Some NUL" if "c \<le> i \<and> i < len" for i
    proof (cases "i = c")
      case True
      then show ?thesis
        using ih(3) [of c] c by simp
    next
      case False
      then show ?thesis
        using that ih(2) [of i] by simp
    qed
    moreover have "r ! i = buf ! i" if "i < c \<or> len \<le> i" for i
      using that ih(3) [of i] True by auto
    ultimately show ?thesis
      unfolding step using ih(1) by blast
  qed
qed

lemma salt_fill_le: "salt_fill len \<le> len"
  by (simp add: salt_fill_eq)

text \<open>
  C9. For every length with \<open>floor(0.42 * len) < floor(0.75 * len)\<close>, every array of at
  least \<open>len\<close> bytes and every state of the random source, \<open>generateSalt\<close> returns, and
  there is a size \<open>s\<close> from \<open>floor(0.42 * len)\<close> up to (not including)
  \<open>floor(0.75 * len)\<close> such that the bytes below \<open>s\<close> are letters or digits and the
  bytes from \<open>s\<close> up to \<open>len\<close> are NUL bytes.
\<close>

theorem generateSalt_layout:
  assumes "salt_min len < salt_fill len" "len \<le> length buf"
  shows "\<exists>buf' g' s. generateSalt buf len g = Inr (buf', g')
      \<and> salt_min len \<le> s \<and> s < salt_fill len
      \<and> (\<forall>i. i < s \<longrightarrow> (\<exists>ch. buf' ! i = Some ch \<and> is_alnum ch))
      \<and> (\<forall>i. s \<le> i \<and> i < len \<longrightarrow> buf' ! i = Some NUL)
      \<and> length buf' = length buf"
proof -
  define s where "s = fst (rand g) mod (salt_fill len - salt_min len) + salt_min len"
  define b1 where "b1 = fst (salt_chars 0 s buf (snd (rand g)))"
  define g1 where "g1 = snd (salt_chars 0 s buf (snd (rand g)))"
  define b2 where "b2 = salt_zeros s len b1"
  have "fst (rand g) mod (salt_fill len - salt_min len) < salt_fill len - salt_min len"
    using assms(1) by simp
  then have s: "salt_min len \<le> s" "s < salt_fill len"
    by (simp_all add: s_def)
  then have sl: "s \<le> len" "s \<le> length buf"
    using salt_fill_le [of len] assms(2) by simp_all
  have res: "generateSalt buf len g = Inr (b2, g1)"
    using assms
    by (simp add: generateSalt_def Let_def b2_def b1_def g1_def s_def split_beta)
  note c = salt_chars_spec [OF sl(2), of 0 "snd (rand g)", folded b1_def]
  have lb1: "length b1 = length buf"
    using c by simp
  note z = salt_zeros_spec [of len b1 s, folded b2_def]
  have z': "length b2 = length b1" "\<And>i. s \<le> i \<and> i < len \<Longrightarrow> b2 ! i = Some NUL"
    "\<And>i. i < s \<or> len \<le> i \<Longrightarrow> b2 ! i = b1 ! i"
    using z lb1 assms(2) by auto
  have "\<exists>ch. b2 ! i = Some ch \<and> is_alnum ch" if "i < s" for i
    using that z'(3) [of i] c by simp
  then show ?thesis
    using res s z'(1,2) lb1
    by (intro exI [of _ b2] exI [of _ g1] exI [of _ s]) simp
qed

theorem generateSalt_layout_witness:
  "\<exists>buf' g'. generateSalt (replicate 48 None) 48 (\<lambda>i. 7 * i + 3) = Inr (buf', g')
      \<and> length buf' = 48"
proof -
  have "salt_min 48 < salt_fill 48" "48 \<le> length (replicate 48 (None :: char option))"
    by (simp_all add: salt_min_eq salt_fill_eq)
  from generateSalt_layout [OF this, of "\<lambda>i. 7 * i + 3"] show ?thesis
    by auto
qed

end
